theory Spec2Isabelle
  imports Complex_Main
begin

section \<open>CCTV video analyzer: time codec, colour matcher, analysis engine, evidence log\<close>

text \<open>
  A shallow embedding of \<^verbatim>\<open>utils/time_utils.py\<close>, \<^verbatim>\<open>utils/color_utils.py\<close>,
  \<^verbatim>\<open>video_worker.py\<close>, and of the evidence bookkeeping of \<^verbatim>\<open>gui.py\<close> and
  \<^verbatim>\<open>report_generator.py\<close>.

  Conventions. Python's unbounded \<open>int\<close> is \<open>int\<close>. Python's \<open>float\<close> is \<open>rat\<close>:
  the seconds, frame rates and decoder positions that occur are compared and divided
  exactly, rounding is not modelled, and an end time of \<open>float('inf')\<close> is \<open>None\<close> in a
  \<open>rat option\<close>. A \<open>str\<close> is a \<open>string\<close> of 8-bit characters (Latin-1). An exception
  is a value of \<open>py_error\<close>. The OpenCV decoder, the YOLO detector, the colour-space
  conversion and the drawing primitives are libraries outside the repository: the
  decoder is a frame-exact model (position = index of the next frame), the other three
  are parameters of the functions that call them.
\<close>

subsection \<open>Python primitives used by the time codec\<close>

text \<open>
  \<open>str.split(':')\<close>: one part more than there are separators; parts may be empty.
\<close>

fun split_on :: "char \<Rightarrow> string \<Rightarrow> string list" where
  "split_on sep [] = [[]]"
| "split_on sep (c # cs) =
     (if c = sep then [] # split_on sep cs
      else (case split_on sep cs of [] \<Rightarrow> [[c]] | p # ps \<Rightarrow> (c # p) # ps))"

text \<open>
  \<open>int(text)\<close> on a string: surrounding whitespace is stripped, one sign is allowed,
  then decimal digits with single underscores between digits. \<open>None\<close> is \<open>ValueError\<close>.
  The whitespace stripped is what the conversion skips: the ASCII characters tab, line
  feed, vertical tab, form feed, carriage return and space, and the two Latin-1
  characters \<open>0x85\<close> and \<open>0xA0\<close> (the separators \<open>0x1C\<close> to \<open>0x1F\<close> are not skipped).
  The only Latin-1 decimal digits are \<open>0\<close> to \<open>9\<close>. The interpreter's optional limit on
  the number of digits is not modelled.
\<close>

definition is_space :: "char \<Rightarrow> bool" where
  "is_space c = ((of_char c :: nat) \<in> {9, 10, 11, 12, 13, 32, 133, 160})"

definition strip :: "string \<Rightarrow> string" where
  "strip s = rev (dropWhile is_space (rev (dropWhile is_space s)))"

definition digit_char :: "nat \<Rightarrow> char" where
  "digit_char d = char_of (48 + d)"

definition digit_val :: "char \<Rightarrow> nat" where
  "digit_val c = of_char c - 48"

definition is_digit :: "char \<Rightarrow> bool" where
  "is_digit c = (48 \<le> (of_char c :: nat) \<and> (of_char c :: nat) \<le> 57)"

fun parse_digits :: "nat \<Rightarrow> string \<Rightarrow> nat option" where
  "parse_digits acc [] = Some acc"
| "parse_digits acc [c] = (if is_digit c then Some (10 * acc + digit_val c) else None)"
| "parse_digits acc (c # d # ds) =
     (if is_digit c then parse_digits (10 * acc + digit_val c) (d # ds)
      else if c = CHR ''_'' \<and> is_digit d then parse_digits (10 * acc + digit_val d) ds
      else None)"

fun parse_unsigned :: "string \<Rightarrow> nat option" where
  "parse_unsigned [] = None"
| "parse_unsigned (c # cs) = (if is_digit c then parse_digits (digit_val c) cs else None)"

definition int_of_str :: "string \<Rightarrow> int option" where
  "int_of_str s =
     (case strip s of
        [] \<Rightarrow> None
      | c # cs \<Rightarrow>
          if c = CHR ''-'' then map_option (\<lambda>n. - int n) (parse_unsigned cs)
          else if c = CHR ''+'' then map_option int (parse_unsigned cs)
          else map_option int (parse_unsigned (c # cs)))"

text \<open>\<open>str(n)\<close> for a natural number and for an integer.\<close>

fun str_nat :: "nat \<Rightarrow> string" where
  "str_nat n = (if n < 10 then [digit_char n] else str_nat (n div 10) @ [digit_char (n mod 10)])"

declare str_nat.simps [simp del]

definition str_int :: "int \<Rightarrow> string" where
  "str_int i = (if i < 0 then CHR ''-'' # str_nat (nat (- i)) else str_nat (nat i))"

text \<open>
  The format specification \<open>{i:02d}\<close>: zero-padded to a width of two, the sign counted
  in the width, so a negative number is never padded.
\<close>

definition format_02d :: "int \<Rightarrow> string" where
  "format_02d i =
     (if i < 0 then CHR ''-'' # str_nat (nat (- i))
      else if i < 10 then CHR ''0'' # str_nat (nat i)
      else str_nat (nat i))"

text \<open>\<open>int(x)\<close> on a number truncates towards zero.\<close>

definition py_int :: "rat \<Rightarrow> int" where
  "py_int x = (if x < 0 then \<lceil>x\<rceil> else \<lfloor>x\<rfloor>)"

subsection \<open>\<^verbatim>\<open>utils/time_utils.py\<close>\<close>

text \<open>
  \<open>hms_to_seconds\<close> returns \<open>-1\<close> on a wrong number of parts, on a \<open>ValueError\<close> of
  \<open>int\<close> (caught by the \<open>except\<close> clause) and on a field out of range. The parts are
  converted in the order hours, minutes, seconds; all three conversions happen before
  the range test.
\<close>

definition hms_to_seconds :: "string \<Rightarrow> int" where
  "hms_to_seconds hms_str =
     (let parts = split_on CHR '':'' hms_str in
      if length parts \<noteq> 3 then - 1
      else
        (case int_of_str (parts ! 0) of None \<Rightarrow> - 1 | Some h \<Rightarrow>
        (case int_of_str (parts ! 1) of None \<Rightarrow> - 1 | Some m \<Rightarrow>
        (case int_of_str (parts ! 2) of None \<Rightarrow> - 1 | Some s \<Rightarrow>
           if m \<ge> 60 \<or> s \<ge> 60 \<or> h < 0 \<or> m < 0 \<or> s < 0 then - 1
           else h * 3600 + m * 60 + s))))"

text \<open>
  \<open>seconds_to_hms\<close>: Python's \<open>//\<close> and \<open>%\<close> on integers round towards minus infinity,
  as \<open>div\<close> and \<open>mod\<close> on \<open>int\<close> do.
\<close>

definition seconds_to_hms :: "rat \<Rightarrow> string" where
  "seconds_to_hms seconds =
     (let sec = py_int seconds;
          h = sec div 3600;
          m = (sec mod 3600) div 60;
          s = sec mod 60
      in format_02d h @ '':'' @ format_02d m @ '':'' @ format_02d s)"

text \<open>
  The shape of a time code in the words of the specification, written without the
  functions above. \<open>plain_hms\<close> is the pattern read strictly: three non-empty strings of
  digits separated by two colons, minutes and seconds below sixty.
\<close>

definition decimal_value :: "string \<Rightarrow> nat" where
  "decimal_value ds = foldl (\<lambda>a c. 10 * a + digit_val c) 0 ds"

definition plain_number :: "string \<Rightarrow> bool" where
  "plain_number s = (s \<noteq> [] \<and> list_all is_digit s)"

definition plain_hms :: "string \<Rightarrow> bool" where
  "plain_hms t =
     (\<exists>a b c. t = a @ '':'' @ b @ '':'' @ c \<and>
        plain_number a \<and> plain_number b \<and> plain_number c \<and>
        decimal_value b < 60 \<and> decimal_value c < 60)"

text \<open>
  An integer literal as \<open>int\<close> reads it, as a grammar: whitespace, an optional sign,
  groups of digits joined by single underscores, whitespace. \<open>digit_groups\<close> is the
  grammar \<open>D ::= d | d D | d _ D\<close>; the value is that of the digits without the
  underscores. \<open>int_whitespace\<close> lists the characters that may surround the literal.
\<close>

definition int_whitespace :: "char list" where
  "int_whitespace = [CHR 0x09, CHR 0x0A, CHR 0x0B, CHR 0x0C, CHR 0x0D, CHR 0x20, CHR 0x85, CHR 0xA0]"

inductive digit_groups :: "string \<Rightarrow> bool" where
  one: "is_digit c \<Longrightarrow> digit_groups [c]"
| more: "is_digit c \<Longrightarrow> digit_groups cs \<Longrightarrow> digit_groups (c # cs)"
| under: "is_digit c \<Longrightarrow> digit_groups cs \<Longrightarrow> digit_groups (c # CHR ''_'' # cs)"

definition literal_value :: "string \<Rightarrow> string \<Rightarrow> int" where
  "literal_value sg body =
     (if sg = ''-'' then - int (decimal_value (filter (\<lambda>c. c \<noteq> CHR ''_'') body))
      else int (decimal_value (filter (\<lambda>c. c \<noteq> CHR ''_'') body)))"

definition int_literal :: "string \<Rightarrow> int \<Rightarrow> bool" where
  "int_literal s v =
     (\<exists>ws1 sg body ws2. s = ws1 @ sg @ body @ ws2 \<and>
        set ws1 \<subseteq> set int_whitespace \<and> set ws2 \<subseteq> set int_whitespace \<and>
        (sg = [] \<or> sg = ''+'' \<or> sg = ''-'') \<and> digit_groups body \<and>
        v = literal_value sg body)"

text \<open>
  The strings \<open>hms_to_seconds\<close> is to accept: three integer literals separated by two
  colons, with the values \<open>h\<close>, \<open>m\<close>, \<open>s\<close>, hours not negative, minutes and seconds in
  \<open>0..59\<close>.
\<close>

definition valid_hms :: "string \<Rightarrow> int \<Rightarrow> int \<Rightarrow> int \<Rightarrow> bool" where
  "valid_hms t h m s =
     (\<exists>ph pm ps. t = ph @ '':'' @ pm @ '':'' @ ps \<and>
        CHR '':'' \<notin> set ph \<and> CHR '':'' \<notin> set pm \<and> CHR '':'' \<notin> set ps \<and>
        int_literal ph h \<and> int_literal pm m \<and> int_literal ps s \<and>
        0 \<le> h \<and> 0 \<le> m \<and> m < 60 \<and> 0 \<le> s \<and> s < 60)"

text \<open>\<open>sep.join(parts)\<close>, the inverse of \<open>split\<close>; used in proofs only.\<close>

fun join :: "char \<Rightarrow> string list \<Rightarrow> string" where
  "join sep [] = []"
| "join sep [p] = p"
| "join sep (p # q # ps) = p @ sep # join sep (q # ps)"

subsection \<open>Images\<close>

text \<open>
  A pixel is a triple of 8-bit channel values; an image (a numpy array of shape
  \<open>(h, w, 3)\<close>) is a list of \<open>h\<close> rows of \<open>w\<close> pixels each. \<open>img_size\<close> is numpy's
  \<open>size\<close>, the product of the three dimensions. A numpy array is rectangular: \<open>rect\<close>.
\<close>

type_synonym pixel = "nat \<times> nat \<times> nat"

type_synonym image = "pixel list list"

definition img_height :: "image \<Rightarrow> nat" where
  "img_height img = length img"

definition img_width :: "image \<Rightarrow> nat" where
  "img_width img = (case img of [] \<Rightarrow> 0 | r # _ \<Rightarrow> length r)"

definition img_size :: "image \<Rightarrow> nat" where
  "img_size img = img_height img * img_width img * 3"

definition rect :: "image \<Rightarrow> bool" where
  "rect img = list_all (\<lambda>r. length r = img_width img) img"

subsection \<open>\<^verbatim>\<open>utils/color_utils.py\<close>\<close>

text \<open>\<open>str.lower\<close> on Latin-1 characters.\<close>

definition lower_char :: "char \<Rightarrow> char" where
  "lower_char c =
     (let n = (of_char c :: nat) in
      if (65 \<le> n \<and> n \<le> 90) \<or> (192 \<le> n \<and> n \<le> 222 \<and> n \<noteq> 215) then char_of (n + 32) else c)"

definition str_lower :: "string \<Rightarrow> string" where
  "str_lower s = map lower_char s"

text \<open>
  \<open>get_hsv_range\<close>: the table of inclusive \<open>(lower, upper)\<close> bounds in OpenCV's HSV
  scale; \<open>None\<close> for a name that is not in the table.
\<close>

definition get_hsv_range :: "string \<Rightarrow> (pixel \<times> pixel) list option" where
  "get_hsv_range color_name =
     (let name = str_lower color_name in
      if name = ''white'' then Some [((0, 0, 180), (180, 50, 255))]
      else if name = ''black'' then Some [((0, 0, 0), (180, 150, 80))]
      else if name = ''red'' then
        Some [((0, 50, 50), (10, 255, 255)), ((170, 50, 50), (180, 255, 255))]
      else if name = ''blue'' then Some [((100, 50, 50), (140, 255, 255))]
      else if name = ''green'' then Some [((40, 50, 50), (80, 255, 255))]
      else if name = ''yellow'' then Some [((20, 50, 50), (40, 255, 255))]
      else None)"

text \<open>\<open>cv2.inRange\<close> on one pixel: every channel within its bounds, bounds included.\<close>

fun in_range :: "pixel \<Rightarrow> pixel \<Rightarrow> pixel \<Rightarrow> bool" where
  "in_range (h, s, v) (lh, ls, lv) (uh, us, uv) =
     (lh \<le> h \<and> h \<le> uh \<and> ls \<le> s \<and> s \<le> us \<and> lv \<le> v \<and> v \<le> uv)"

text \<open>
  A mask is an image of truth values. \<open>mask_or\<close> is \<open>cv2.bitwise_or\<close> on two masks
  of one shape, \<open>count_non_zero\<close> is \<open>cv2.countNonZero\<close>.
\<close>

definition in_range_mask :: "image \<Rightarrow> pixel \<Rightarrow> pixel \<Rightarrow> bool list list" where
  "in_range_mask img lower upper = map (map (\<lambda>p. in_range p lower upper)) img"

definition mask_or :: "bool list list \<Rightarrow> bool list list \<Rightarrow> bool list list" where
  "mask_or a b = map2 (map2 (\<or>)) a b"

definition count_non_zero :: "bool list list \<Rightarrow> nat" where
  "count_non_zero m = length (filter id (concat m))"

text \<open>
  \<open>is_color_match\<close>. The conversion \<open>cv2.cvtColor(..., COLOR_BGR2HSV)\<close> works pixel by
  pixel and is the parameter \<open>cvt\<close>. The loop over the ranges is the \<open>fold\<close>.
  \<open>default_match_threshold\<close> is the default value \<open>0.20\<close> of the third argument.
\<close>

definition default_match_threshold :: rat where
  "default_match_threshold = 20 / 100"

definition is_color_match :: "(pixel \<Rightarrow> pixel) \<Rightarrow> image \<Rightarrow> string \<Rightarrow> rat \<Rightarrow> bool" where
  "is_color_match cvt image_roi color_filter_name match_threshold =
     (if str_lower color_filter_name = ''none'' \<or> img_size image_roi = 0 then True
      else
        (case get_hsv_range color_filter_name of
           None \<Rightarrow> True
         | Some hsv_ranges \<Rightarrow>
             if hsv_ranges = [] then True
             else
               (let hsv_roi = map (map cvt) image_roi;
                    total_mask =
                      fold (\<lambda>(lower, upper) total. mask_or total (in_range_mask hsv_roi lower upper))
                        hsv_ranges (map (map (\<lambda>_. False)) hsv_roi);
                    total_pixels = img_height hsv_roi * img_width hsv_roi;
                    matching_pixels = count_non_zero total_mask;
                    color_percentage = rat_of_nat matching_pixels / rat_of_nat total_pixels
                in color_percentage > match_threshold)))"

text \<open>
  The fraction of the region's pixels whose HSV value lies in at least one of the
  ranges, as the specification words it.
\<close>

definition in_some_range :: "(pixel \<times> pixel) list \<Rightarrow> pixel \<Rightarrow> bool" where
  "in_some_range ranges p = list_ex (\<lambda>(lower, upper). in_range p lower upper) ranges"

definition matching_fraction :: "(pixel \<Rightarrow> pixel) \<Rightarrow> (pixel \<times> pixel) list \<Rightarrow> image \<Rightarrow> rat" where
  "matching_fraction cvt ranges img =
     rat_of_nat (length (filter (\<lambda>p. in_some_range ranges (cvt p)) (concat img)))
       / rat_of_nat (length (concat img))"

subsection \<open>The decoder\<close>

text \<open>
  \<open>cv2.VideoCapture\<close> as a frame-exact decoder: the frames of the file and the index
  of the next frame to read (\<open>CAP_PROP_POS_FRAMES\<close>). A path that cannot be opened is
  the source \<open>None\<close>; the capture is then not opened, every read fails and a seek does
  nothing. A read past the last frame fails and leaves the position where it is.
\<close>

record capture =
  cap_opened :: bool
  cap_frames :: "image list"
  cap_pos :: int

definition VideoCapture :: "image list option \<Rightarrow> capture" where
  "VideoCapture src =
     (case src of
        None \<Rightarrow> \<lparr>cap_opened = False, cap_frames = [], cap_pos = 0\<rparr>
      | Some fs \<Rightarrow> \<lparr>cap_opened = True, cap_frames = fs, cap_pos = 0\<rparr>)"

definition cap_set_pos :: "int \<Rightarrow> capture \<Rightarrow> capture" where
  "cap_set_pos n cap = (if cap_opened cap then cap\<lparr>cap_pos := n\<rparr> else cap)"

definition cap_get_pos :: "capture \<Rightarrow> rat" where
  "cap_get_pos cap = of_int (cap_pos cap)"

definition cap_read :: "capture \<Rightarrow> image option \<times> capture" where
  "cap_read cap =
     (if cap_opened cap \<and> 0 \<le> cap_pos cap \<and> cap_pos cap < int (length (cap_frames cap))
      then (Some (cap_frames cap ! nat (cap_pos cap)), cap\<lparr>cap_pos := cap_pos cap + 1\<rparr>)
      else (None, cap))"

subsection \<open>\<^verbatim>\<open>video_worker.py\<close>\<close>

text \<open>
  One detection of the detector: the corner coordinates (floating point, converted
  with \<open>int\<close> where they are used), the confidence and the class.
\<close>

record box_data =
  xyxy :: "rat \<times> rat \<times> rat \<times> rat"
  conf :: rat
  cls :: int

datatype py_error = ZeroDivisionError | PredictError

datatype outcome = Returned | Raised py_error

text \<open>
  The two signals of the worker: \<open>frame_signal\<close> with the annotated frame, the
  detection count, the decoder position, the frame rate and the read counter, and
  \<open>finished_signal\<close> with the elapsed time.
\<close>

datatype event =
  FrameSignal image nat rat rat int
| FinishedSignal rat

text \<open>The fields of \<open>VideoWorker\<close> set by its constructor.\<close>

record worker =
  target_classes :: "int list"
  conf_threshold :: rat
  frame_skip :: int
  video_fps :: rat
  start_sec :: rat
  end_sec :: "rat option"
  color_filter :: string

text \<open>
  What the worker calls outside the repository: the detector (\<open>model.predict\<close>, which
  may raise), the colour conversion, the drawing of boxes and labels on a copy of the
  frame, the value of the flag \<open>_is_running\<close> at the \<open>n\<close>-th test of the loop
  condition (another thread clears it), and the clock at the start and at the end.
\<close>

record env =
  predict :: "image \<Rightarrow> rat \<Rightarrow> int list \<Rightarrow> py_error + box_data list"
  cvtColor :: "pixel \<Rightarrow> pixel"
  draw :: "image \<Rightarrow> box_data list \<Rightarrow> image"
  is_running :: "nat \<Rightarrow> bool"
  time_start :: rat
  time_end :: rat

text \<open>
  The clamp of lines 78 to 83: \<open>x1, y1\<close> are raised to \<open>0\<close>, \<open>x2, y2\<close> are lowered to
  the width and the height; nothing else is done to them.
\<close>

definition clamp_box :: "image \<Rightarrow> box_data \<Rightarrow> int \<times> int \<times> int \<times> int" where
  "clamp_box frame b =
     (case xyxy b of (a1, b1, a2, b2) \<Rightarrow>
        (let x1 = py_int a1; y1 = py_int b1; x2 = py_int a2; y2 = py_int b2;
             h = int (img_height frame); w = int (img_width frame)
         in (max 0 x1, max 0 y1, min w x2, min h y2)))"

text \<open>
  A slice \<open>xs[lo:hi]\<close>: a negative bound counts from the end, and each bound is then
  cut to \<open>0..len(xs)\<close>; the slice of an image \<open>frame[y1:y2, x1:x2]\<close> slices the rows,
  then each row.
\<close>

definition slice_index :: "int \<Rightarrow> nat \<Rightarrow> nat" where
  "slice_index i n = (if i < 0 then nat (max 0 (i + int n)) else min (nat i) n)"

definition py_slice :: "int \<Rightarrow> int \<Rightarrow> 'a list \<Rightarrow> 'a list" where
  "py_slice lo hi xs =
     (let a = slice_index lo (length xs); b = slice_index hi (length xs)
      in take (b - a) (drop a xs))"

definition crop :: "image \<Rightarrow> int \<times> int \<times> int \<times> int \<Rightarrow> image" where
  "crop frame box = (case box of (x1, y1, x2, y2) \<Rightarrow> map (py_slice x1 x2) (py_slice y1 y2 frame))"

text \<open>The colour filtering of lines 74 to 93.\<close>

definition validate :: "env \<Rightarrow> worker \<Rightarrow> image \<Rightarrow> box_data list \<Rightarrow> box_data list" where
  "validate e w frame detections =
     (if str_lower (color_filter w) \<noteq> ''none'' then
        filter (\<lambda>b. is_color_match (cvtColor e) (crop frame (clamp_box frame b))
                      (color_filter w) default_match_threshold) detections
      else detections)"

text \<open>
  Lines 63 to 124 for one frame that is neither past the end time nor skipped:
  inference, filtering, annotation, and the signal to emit. An exception of the
  detector is not caught anywhere in \<open>run\<close>.
\<close>

definition process_frame :: "env \<Rightarrow> worker \<Rightarrow> image \<Rightarrow> int \<Rightarrow> rat \<Rightarrow> py_error + event" where
  "process_frame e w frame frame_counter current_frame_pos =
     (case predict e frame (conf_threshold w) (target_classes w) of
        Inl err \<Rightarrow> Inl err
      | Inr detections \<Rightarrow>
          (let validated_detections = validate e w frame detections;
               current_detection_count = length validated_detections;
               annotated_frame =
                 (if current_detection_count > 0 then draw e frame validated_detections
                  else frame)
           in Inr (FrameSignal annotated_frame current_detection_count current_frame_pos
                     (video_fps w) frame_counter)))"

text \<open>
  The \<open>while\<close> loop of \<open>run\<close>, from the state of the decoder, the read counter and
  the number of tests of the loop condition made so far. It returns the signals emitted
  and how the loop was left: normally (\<open>Returned\<close>: flag cleared, decoder closed, read
  failed, end time passed) or by an exception. The division by \<open>video_fps\<close> raises
  \<open>ZeroDivisionError\<close> when the rate is zero.
\<close>

function loop :: "env \<Rightarrow> worker \<Rightarrow> capture \<Rightarrow> int \<Rightarrow> nat \<Rightarrow> event list \<times> outcome" where
  "loop e w cap frame_counter n =
     (if \<not> (is_running e n \<and> cap_opened cap) then ([], Returned)
      else
        (case cap_read cap of
           (None, cap') \<Rightarrow> ([], Returned)
         | (Some frame, cap') \<Rightarrow>
             (let frame_counter' = frame_counter + 1;
                  current_frame_pos = cap_get_pos cap'
              in if video_fps w = 0 then ([], Raised ZeroDivisionError)
                 else
                   (let time_of_current_frame_sec = (current_frame_pos - 1) / video_fps w
                    in if (case end_sec w of None \<Rightarrow> False
                           | Some bound \<Rightarrow> time_of_current_frame_sec > bound)
                       then ([], Returned)
                       else if frame_skip w > 1 \<and> frame_counter' mod frame_skip w \<noteq> 0
                       then loop e w cap' frame_counter' (Suc n)
                       else
                         (case process_frame e w frame frame_counter' current_frame_pos of
                            Inl err \<Rightarrow> ([], Raised err)
                          | Inr ev \<Rightarrow>
                              (case loop e w cap' frame_counter' (Suc n) of
                                 (evs, out) \<Rightarrow> (ev # evs, out)))))))"
  by pat_completeness auto
termination
  by (relation "measure (\<lambda>(e, w, cap, frame_counter, n).
        nat (int (length (cap_frames cap)) - cap_pos cap))")
     (auto simp: cap_read_def split: if_splits)

declare loop.simps [simp del]

text \<open>
  \<open>run\<close>: open the decoder, seek when a start time is given, loop, then release the
  decoder and emit \<open>finished_signal\<close>. When the loop is left by an exception, the
  statements after it are not executed.
\<close>

definition seek :: "worker \<Rightarrow> capture \<Rightarrow> capture \<times> int" where
  "seek w cap =
     (if start_sec w > 0 then
        (let start_frame = py_int (start_sec w * video_fps w)
         in (cap_set_pos start_frame cap, start_frame - 1))
      else (cap, 0))"

definition run :: "env \<Rightarrow> worker \<Rightarrow> image list option \<Rightarrow> event list \<times> outcome" where
  "run e w src =
     (case seek w (VideoCapture src) of
        (cap, frame_counter) \<Rightarrow>
          (case loop e w cap frame_counter 0 of
             (evs, Raised err) \<Rightarrow> (evs, Raised err)
           | (evs, Returned) \<Rightarrow> (evs @ [FinishedSignal (time_end e - time_start e)], Returned)))"

subsection \<open>The evidence log of \<^verbatim>\<open>gui.py\<close> and the file names of \<^verbatim>\<open>report_generator.py\<close>\<close>

text \<open>
  One entry of \<open>evidence_log\<close> (a dictionary with these five keys; the filter settings
  are an ordered dictionary of strings).
\<close>

record evidence_entry =
  frame_num :: int
  timestamp :: string
  detection_count :: nat
  frame_rgb :: image
  filters_used :: "(string \<times> string) list"

text \<open>
  The fields of \<open>AnalyzerWindow\<close> that hold the evidence: the log and the two counters.
\<close>

record session =
  evidence_log :: "evidence_entry list"
  total_evidence_frames :: nat
  gallery_frame_counter :: nat

definition init_session :: session where
  "init_session = \<lparr>evidence_log = [], total_evidence_frames = 0, gallery_frame_counter = 0\<rparr>"

definition clear_evidence_gallery :: "session \<Rightarrow> session" where
  "clear_evidence_gallery st =
     st\<lparr>gallery_frame_counter := 0, total_evidence_frames := 0, evidence_log := []\<rparr>"

text \<open>
  \<open>add_evidence_to_gallery\<close>: the time of the frame just read, the new entry, the two
  counters. The division raises before anything is stored when the rate is zero.
\<close>

definition add_evidence_to_gallery ::
  "session \<Rightarrow> image \<Rightarrow> rat \<Rightarrow> rat \<Rightarrow> nat \<Rightarrow> (string \<times> string) list \<Rightarrow> py_error + session" where
  "add_evidence_to_gallery st frame current_frame_pos fps count filter_settings =
     (if current_frame_pos > 0 \<and> fps = 0 then Inl ZeroDivisionError
      else
        (let current_time_seconds =
               (if current_frame_pos > 0 then (current_frame_pos - 1) / fps else 0);
             timestamp_hms = seconds_to_hms current_time_seconds;
             entry = \<lparr>frame_num = py_int (current_frame_pos - 1),
                      timestamp = timestamp_hms,
                      detection_count = count,
                      frame_rgb = frame,
                      filters_used = filter_settings\<rparr>
         in Inr (st\<lparr>evidence_log := evidence_log st @ [entry],
                    gallery_frame_counter := gallery_frame_counter st + 1,
                    total_evidence_frames := total_evidence_frames st + 1\<rparr>)))"

text \<open>
  \<open>update_frame\<close>, the slot of \<open>frame_signal\<close>: the frame is converted from BGR to RGB
  (the channels are swapped) and, when it has a detection, logged with the filter
  settings read from the widgets. The read counter of the signal is received and not
  used.
\<close>

definition bgr_to_rgb :: "image \<Rightarrow> image" where
  "bgr_to_rgb img = map (map (\<lambda>(b, g, r). (r, g, b))) img"

definition update_frame ::
  "session \<Rightarrow> (string \<times> string) list \<Rightarrow> image \<Rightarrow> nat \<Rightarrow> rat \<Rightarrow> rat \<Rightarrow> int \<Rightarrow> py_error + session" where
  "update_frame st filter_settings frame count current_frame_pos fps frame_counter =
     (if count > 0 then
        add_evidence_to_gallery st (bgr_to_rgb frame) current_frame_pos fps count filter_settings
      else Inr st)"

text \<open>
  The operations on a session: the buttons and the two signals of the worker. An
  exception in a slot leaves the fields as they were. \<open>select_video_file\<close> and
  \<open>start_analysis\<close> call \<open>clear_evidence_gallery\<close> first; \<open>analysis_finished\<close>,
  \<open>generate_report\<close> and \<open>reset_filters\<close> only read the log and the counters.
\<close>

datatype operation =
  SelectVideoFile
| StartAnalysis
| ClearEvidence
| ResetFilters
| GenerateReport
| WorkerSignal "(string \<times> string) list" event

fun apply_operation :: "session \<Rightarrow> operation \<Rightarrow> session" where
  "apply_operation st SelectVideoFile = clear_evidence_gallery st"
| "apply_operation st StartAnalysis = clear_evidence_gallery st"
| "apply_operation st ClearEvidence = clear_evidence_gallery st"
| "apply_operation st ResetFilters = st"
| "apply_operation st GenerateReport = st"
| "apply_operation st (WorkerSignal fs (FinishedSignal total_time)) = st"
| "apply_operation st (WorkerSignal fs (FrameSignal frame count pos fps frame_counter)) =
     (case update_frame st fs frame count pos fps frame_counter of
        Inl err \<Rightarrow> st
      | Inr st' \<Rightarrow> st')"


text \<open>
  The name \<open>generate_report\<close> gives the image file of an entry: the time stamp with its
  colons replaced by underscores, \<open>_F\<close>, the frame number, \<open>.png\<close>.
\<close>

definition replace_colons :: "string \<Rightarrow> string" where
  "replace_colons s = map (\<lambda>c. if c = CHR '':'' then CHR ''_'' else c) s"

definition img_filename :: "evidence_entry \<Rightarrow> string" where
  "img_filename entry =
     replace_colons (timestamp entry) @ ''_F'' @ str_int (frame_num entry) @ ''.png''"

text \<open>
  The rows \<open>generate_report\<close> collects for the CSV file, one per entry in log order:
  image file name, frame number, time stamp, detection count, then the values of the
  filter settings.
\<close>

definition report_rows ::
  "evidence_entry list \<Rightarrow> (string \<times> int \<times> string \<times> nat \<times> string list) list" where
  "report_rows entries =
     map (\<lambda>entry. (img_filename entry, frame_num entry, timestamp entry,
                    detection_count entry, map snd (filters_used entry))) entries"

subsection \<open>Conditions of the loop, named\<close>

text \<open>
  The two tests the loop makes on a frame it has read: the end-time test on the decoder
  position reported after the read, and the skip test on the read counter.
\<close>

definition within_end :: "worker \<Rightarrow> rat \<Rightarrow> bool" where
  "within_end w pos = (case end_sec w of None \<Rightarrow> True | Some bound \<Rightarrow> (pos - 1) / video_fps w \<le> bound)"

definition skipped :: "worker \<Rightarrow> int \<Rightarrow> bool" where
  "skipped w frame_counter = (frame_skip w > 1 \<and> frame_counter mod frame_skip w \<noteq> 0)"

text \<open>
  The reconstructed time of an emitted frame, \<open>(position - 1) / rate\<close>, does not exceed
  a bound; the completion signal carries no frame.
\<close>

definition event_within :: "rat \<Rightarrow> event \<Rightarrow> bool" where
  "event_within bound ev =
     (case ev of FrameSignal img cnt pos fps c \<Rightarrow> (pos - 1) / fps \<le> bound | FinishedSignal t \<Rightarrow> True)"

subsection \<open>Example data\<close>

text \<open>
  A video of \<open>n\<close> equal one-pixel frames, a detector that finds nothing, a flag that is
  never cleared, and worker configurations for the examples below.
\<close>

definition ex_frame :: image where
  "ex_frame = [[(0, 0, 0)]]"

definition ex_video :: "nat \<Rightarrow> image list" where
  "ex_video n = replicate n ex_frame"

definition ex_env :: env where
  "ex_env = \<lparr>predict = (\<lambda>frame c t. Inr []), cvtColor = (\<lambda>p. p), draw = (\<lambda>frame bs. frame),
     is_running = (\<lambda>n. True), time_start = 0, time_end = 1\<rparr>"

definition ex_worker :: worker where
  "ex_worker = \<lparr>target_classes = [0], conf_threshold = 25 / 100, frame_skip = 5,
     video_fps = 30, start_sec = 10, end_sec = None, color_filter = ''None''\<rparr>"

definition w_end :: worker where
  "w_end = ex_worker\<lparr>frame_skip := 2, video_fps := 10, start_sec := 0, end_sec := Some (2 / 10)\<rparr>"

definition w_skip7 :: worker where
  "w_skip7 = ex_worker\<lparr>frame_skip := 7\<rparr>"

definition w_skip37 :: worker where
  "w_skip37 = ex_worker\<lparr>frame_skip := 37\<rparr>"

text \<open>A frame on which the detector of \<open>ex_env_raise\<close> raises, and a worker that
  starts at the first frame and skips none.\<close>

definition bad_frame :: image where
  "bad_frame = [[(1, 1, 1)]]"

definition ex_env_raise :: env where
  "ex_env_raise = ex_env\<lparr>predict := (\<lambda>frame c t. if frame = bad_frame then Inl PredictError else Inr [])\<rparr>"

definition w_plain :: worker where
  "w_plain = ex_worker\<lparr>frame_skip := 1, start_sec := 0\<rparr>"

text \<open>
  A region of two rows of two pixels, given in HSV: three of the four pixels lie in the
  ranges of red.
\<close>

definition red_roi :: image where
  "red_roi = [[(0, 255, 255), (5, 200, 200)], [(120, 255, 255), (175, 100, 100)]]"

text \<open>
  A frame of four rows of eight pixels, each pixel carrying its own column and row, and
  a detection whose box lies wholly to the left of the frame.
\<close>

definition grid_frame :: image where
  "grid_frame = map (\<lambda>y. map (\<lambda>x. (x, y, 0)) [0..<8]) [0..<4]"

definition left_box :: box_data where
  "left_box = \<lparr>xyxy = (- 20, 1, - 5, 3), conf = 9 / 10, cls = 0\<rparr>"

text \<open>
  A detector that reports one box on every frame, and the session after the first
  frame of a video has been logged.
\<close>

definition ex_env_detect :: env where
  "ex_env_detect = ex_env\<lparr>predict := (\<lambda>frame c t. Inr [\<lparr>xyxy = (0, 0, 1, 1), conf = 9 / 10, cls = 0\<rparr>])\<rparr>"

definition first_entry_session :: session where
  "first_entry_session =
     \<lparr>evidence_log =
        [\<lparr>frame_num = 0, timestamp = ''00:00:00'', detection_count = 1,
          frame_rgb = ex_frame, filters_used = []\<rparr>],
      total_evidence_frames = 1, gallery_frame_counter = 1\<rparr>"

text \<open>
  The session after the frame at index \<open>300\<close>, the first one of a run that starts at
  ten seconds of a video of thirty frames a second, has been logged.
\<close>

definition seek_entry_session :: session where
  "seek_entry_session =
     \<lparr>evidence_log =
        [\<lparr>frame_num = 300, timestamp = ''00:00:10'', detection_count = 1,
          frame_rgb = ex_frame, filters_used = []\<rparr>],
      total_evidence_frames = 1, gallery_frame_counter = 1\<rparr>"

section \<open>Properties\<close>

subsection \<open>Time codec: digits, parsing, splitting\<close>

lemma is_digit_digit_char: "d < 10 \<Longrightarrow> is_digit (digit_char d)"
  by (simp add: is_digit_def digit_char_def)

lemma digit_val_digit_char: "d < 10 \<Longrightarrow> digit_val (digit_char d) = d"
  by (simp add: digit_val_def digit_char_def)

lemma not_space_digit: "is_digit c \<Longrightarrow> \<not> is_space c"
  by (auto simp: is_digit_def is_space_def)

lemma digit_not_colon: "is_digit c \<Longrightarrow> c \<noteq> CHR '':''"
  by (auto simp: is_digit_def)

lemma str_nat_digits: "c \<in> set (str_nat n) \<Longrightarrow> is_digit c"
proof (induction n arbitrary: c rule: str_nat.induct)
  case (1 n)
  show ?case
  proof (cases "n < 10")
    case True
    with "1.prems" show ?thesis
      by (simp add: str_nat.simps [of n] is_digit_digit_char)
  next
    case False
    with "1.prems" "1.IH" show ?thesis
      by (auto simp: str_nat.simps [of n] is_digit_digit_char)
  qed
qed

lemma str_nat_nonempty: "str_nat n \<noteq> []"
  by (subst str_nat.simps) simp

lemma parse_digits_all:
  "\<forall>c \<in> set ds. is_digit c \<Longrightarrow>
     parse_digits acc ds = Some (foldl (\<lambda>a c. 10 * a + digit_val c) acc ds)"
  by (induction acc ds rule: parse_digits.induct) auto

lemma foldl_str_nat: "foldl (\<lambda>a c. 10 * a + digit_val c) 0 (str_nat n) = n"
proof (induction n rule: str_nat.induct)
  case (1 n)
  show ?case
  proof (cases "n < 10")
    case True
    then show ?thesis by (simp add: str_nat.simps [of n] digit_val_digit_char)
  next
    case False
    with "1.IH" show ?thesis
      by (simp add: str_nat.simps [of n] digit_val_digit_char)
  qed
qed

lemma parse_unsigned_digits:
  assumes "ds \<noteq> []" "\<forall>c \<in> set ds. is_digit c"
  shows "parse_unsigned ds = Some (foldl (\<lambda>a c. 10 * a + digit_val c) 0 ds)"
proof (cases ds)
  case Nil
  with assms show ?thesis by simp
next
  case (Cons c cs)
  with assms show ?thesis by (simp add: parse_digits_all)
qed

lemma strip_no_space: "\<forall>c \<in> set s. \<not> is_space c \<Longrightarrow> strip s = s"
proof -
  assume a: "\<forall>c \<in> set s. \<not> is_space c"
  have d: "dropWhile is_space xs = xs" if "\<forall>c \<in> set xs. \<not> is_space c" for xs
    using that by (cases xs) auto
  from a have "dropWhile is_space s = s" by (rule d)
  moreover from a have "dropWhile is_space (rev s) = rev s" by (intro d) simp
  ultimately show ?thesis by (simp add: strip_def)
qed

lemma int_of_str_digits:
  assumes "ds \<noteq> []" "\<forall>c \<in> set ds. is_digit c"
  shows "int_of_str ds = Some (int (foldl (\<lambda>a c. 10 * a + digit_val c) 0 ds))"
proof -
  from assms(2) have "strip ds = ds"
    by (intro strip_no_space) (auto dest: not_space_digit)
  moreover obtain c cs where ds: "ds = c # cs" using assms(1) by (cases ds) auto
  moreover have "is_digit c" using assms(2) ds by simp
  then have "c \<noteq> CHR ''-''" "c \<noteq> CHR ''+''" by (auto simp: is_digit_def)
  ultimately show ?thesis
    using parse_unsigned_digits [OF assms] by (simp add: int_of_str_def)
qed

lemma is_digit_zero: "is_digit CHR ''0''"
  by (simp add: is_digit_def)

lemma digit_val_zero: "digit_val CHR ''0'' = 0"
  by (simp add: digit_val_def)

lemma format_02d_digits: "0 \<le> i \<Longrightarrow> c \<in> set (format_02d i) \<Longrightarrow> is_digit c"
  by (auto simp: format_02d_def is_digit_zero dest: str_nat_digits split: if_splits)

lemma format_02d_no_colon: "0 \<le> i \<Longrightarrow> CHR '':'' \<notin> set (format_02d i)"
  using format_02d_digits digit_not_colon by blast

lemma int_of_str_format_02d: "0 \<le> i \<Longrightarrow> int_of_str (format_02d i) = Some i"
proof -
  assume i: "0 \<le> i"
  have ne: "format_02d i \<noteq> []"
    by (simp add: format_02d_def str_nat_nonempty)
  have "foldl (\<lambda>a c. 10 * a + digit_val c) 0 (format_02d i) = nat i"
    using i by (simp add: format_02d_def foldl_str_nat digit_val_zero)
  with i show ?thesis
    using int_of_str_digits [OF ne] format_02d_digits [OF i] by simp
qed

lemma split_on_nonempty: "split_on sep t \<noteq> []"
  by (induction t) (auto split: list.splits)

lemma split_on_no_sep: "sep \<notin> set a \<Longrightarrow> split_on sep a = [a]"
  by (induction a) auto

lemma split_on_append: "sep \<notin> set a \<Longrightarrow> split_on sep (a @ sep # r) = a # split_on sep r"
  by (induction a) auto

lemma split_on_three:
  assumes "sep \<notin> set a" "sep \<notin> set b" "sep \<notin> set c"
  shows "split_on sep (a @ [sep] @ b @ [sep] @ c) = [a, b, c]"
  using assms by (simp add: split_on_append split_on_no_sep)

lemma join_split_on: "join sep (split_on sep t) = t"
proof (induction t)
  case Nil
  show ?case by simp
next
  case (Cons c cs)
  show ?case
  proof (cases "c = sep")
    case True
    with Cons show ?thesis
      by (cases "split_on sep cs") (auto simp: split_on_nonempty)
  next
    case False
    with Cons show ?thesis
      by (cases "split_on sep cs"; cases "tl (split_on sep cs)") (auto simp: split_on_nonempty)
  qed
qed

lemma split_on_parts_no_sep: "p \<in> set (split_on sep t) \<Longrightarrow> sep \<notin> set p"
  by (induction t arbitrary: p) (auto split: if_splits list.splits)

lemma split_on_three_iff:
  "length (split_on sep t) = 3 \<longleftrightarrow>
     (\<exists>a b c. t = a @ [sep] @ b @ [sep] @ c \<and> sep \<notin> set a \<and> sep \<notin> set b \<and> sep \<notin> set c)"
proof
  assume "length (split_on sep t) = 3"
  then obtain a b c where abc: "split_on sep t = [a, b, c]"
    by (auto simp: length_Suc_conv numeral_3_eq_3)
  have "t = join sep [a, b, c]" using join_split_on [of sep t] abc by simp
  moreover have "sep \<notin> set a" "sep \<notin> set b" "sep \<notin> set c"
    using split_on_parts_no_sep [of _ sep t] abc by auto
  ultimately show "\<exists>a b c. t = a @ [sep] @ b @ [sep] @ c \<and> sep \<notin> set a \<and> sep \<notin> set b \<and> sep \<notin> set c"
    by auto
next
  assume "\<exists>a b c. t = a @ [sep] @ b @ [sep] @ c \<and> sep \<notin> set a \<and> sep \<notin> set b \<and> sep \<notin> set c"
  then show "length (split_on sep t) = 3"
    using split_on_three by fastforce
qed

lemma hms_recompose: "(s div 3600) * 3600 + ((s mod 3600) div 60) * 60 + s mod 60 = (s::int)"
proof -
  have "(s mod 3600) mod 60 = s mod 60"
    by (rule mod_mod_cancel) simp
  then have "((s mod 3600) div 60) * 60 + s mod 60 = s mod 3600"
    by (metis div_mult_mod_eq)
  then show ?thesis
    by (metis add.assoc div_mult_mod_eq)
qed

lemma hms_to_seconds_parts:
  "split_on CHR '':'' t = [a, b, c] \<Longrightarrow>
   int_of_str a = Some h \<Longrightarrow> int_of_str b = Some m \<Longrightarrow> int_of_str c = Some s \<Longrightarrow>
   hms_to_seconds t =
     (if m \<ge> 60 \<or> s \<ge> 60 \<or> h < 0 \<or> m < 0 \<or> s < 0 then - 1 else h * 3600 + m * 60 + s)"
  by (simp add: hms_to_seconds_def)

lemma parse_formatted: "0 \<le> s \<Longrightarrow> hms_to_seconds (seconds_to_hms (of_int s)) = s"
proof -
  assume s: "0 \<le> s"
  define h m r where "h = s div 3600" and "m = (s mod 3600) div 60" and "r = s mod 60"
  have nn: "0 \<le> h" "0 \<le> m" "0 \<le> r"
    using s by (simp_all add: h_def m_def r_def pos_imp_zdiv_nonneg_iff)
  have "s mod 3600 < 3600" by simp
  then have m60: "m < 60" unfolding m_def by linarith
  have r60: "r < 60" by (simp add: r_def)
  note lt = m60 r60
  have fmt: "seconds_to_hms (of_int s) = format_02d h @ [CHR '':''] @ format_02d m @ [CHR '':''] @ format_02d r"
    using s by (simp add: seconds_to_hms_def py_int_def h_def m_def r_def Let_def)
  have sp: "split_on CHR '':'' (seconds_to_hms (of_int s)) = [format_02d h, format_02d m, format_02d r]"
    unfolding fmt using nn by (intro split_on_three format_02d_no_colon)
  have re: "h * 3600 + m * 60 + r = s"
    unfolding h_def m_def r_def by (rule hms_recompose)
  have "hms_to_seconds (seconds_to_hms (of_int s)) =
          (if m \<ge> 60 \<or> r \<ge> 60 \<or> h < 0 \<or> m < 0 \<or> r < 0 then - 1 else h * 3600 + m * 60 + r)"
    using nn by (intro hms_to_seconds_parts [OF sp] int_of_str_format_02d)
  with nn lt re show ?thesis by simp
qed

text \<open>
  C5. \<open>hms_to_seconds\<close> is a left inverse of \<open>seconds_to_hms\<close>: for every integer
  \<open>s \<ge> 0\<close>, parsing the formatted time code of \<open>s\<close> seconds gives \<open>s\<close> back.
\<close>

theorem hms_roundtrip: "0 \<le> s \<Longrightarrow> hms_to_seconds (seconds_to_hms (of_int s)) = s"
  by (rule parse_formatted)

theorem hms_roundtrip_witness:
  "(0::int) \<le> 3725 \<and> hms_to_seconds (seconds_to_hms (of_int 3725)) = 3725"
  using hms_roundtrip [of 3725] by simp

subsection \<open>The strings \<open>hms_to_seconds\<close> accepts\<close>

text \<open>
  The parser of \<open>int\<close> accepts exactly the integer literals of the grammar, with the
  value the grammar gives them.
\<close>

lemma is_space_whitespace: "is_space c \<longleftrightarrow> c \<in> set int_whitespace"
proof -
  have e: "c = d \<longleftrightarrow> (of_char c :: nat) = of_char d" for d
    by simp
  show ?thesis
    unfolding is_space_def int_whitespace_def by (simp add: e)
qed

lemma not_digit_groups_Nil: "\<not> digit_groups []"
  by (subst digit_groups.simps) simp

lemma digit_groups_Cons:
  "digit_groups (c # cs) \<longleftrightarrow>
     is_digit c \<and> (cs = [] \<or> digit_groups cs \<or> (\<exists>r. cs = CHR ''_'' # r \<and> digit_groups r))"
  by (subst digit_groups.simps) auto

lemma digit_not_underscore: "is_digit c \<Longrightarrow> c \<noteq> CHR ''_''"
  by (auto simp: is_digit_def)

lemma not_digit_underscore: "\<not> is_digit CHR ''_''"
  by (simp add: is_digit_def)

lemma digit_not_sign: "is_digit c \<Longrightarrow> c \<noteq> CHR ''+'' \<and> c \<noteq> CHR ''-''"
  by (auto simp: is_digit_def)

lemma not_space_sign: "\<not> is_space CHR ''+''" "\<not> is_space CHR ''-''"
  by (simp_all add: is_space_def)

lemma digit_groups_last: "digit_groups cs \<Longrightarrow> is_digit (last cs)"
  by (induction rule: digit_groups.induct) (auto simp: not_digit_groups_Nil)

lemma parse_digits_groups:
  "parse_digits acc cs = Some n \<longleftrightarrow>
     (cs = [] \<or> digit_groups cs \<or> (\<exists>r. cs = CHR ''_'' # r \<and> digit_groups r)) \<and>
     n = foldl (\<lambda>a c. 10 * a + digit_val c) acc (filter (\<lambda>c. c \<noteq> CHR ''_'') cs)"
proof (induction acc cs arbitrary: n rule: parse_digits.induct)
  case (1 acc)
  show ?case by auto
next
  case (2 acc c)
  show ?case
    by (auto simp: digit_groups_Cons not_digit_groups_Nil digit_not_underscore)
next
  case (3 acc c d ds)
  show ?case
  proof (cases "is_digit c")
    case True
    then show ?thesis
      using "3.IH"(1) [OF True, of n]
      by (simp add: digit_groups_Cons [of c] digit_not_underscore)
  next
    case False
    show ?thesis
    proof (cases "c = CHR ''_'' \<and> is_digit d")
      case True
      then show ?thesis
        using False "3.IH"(2) [OF False True, of n]
        by (simp add: digit_groups_Cons [of "CHR ''_''"] digit_groups_Cons [of d]
            digit_not_underscore not_digit_underscore)
    next
      case n: False
      with False show ?thesis
        by (auto simp: digit_groups_Cons [of c] digit_groups_Cons [of d])
    qed
  qed
qed

lemma parse_unsigned_groups:
  "parse_unsigned cs = Some n \<longleftrightarrow>
     digit_groups cs \<and> n = decimal_value (filter (\<lambda>c. c \<noteq> CHR ''_'') cs)"
proof (cases cs)
  case Nil
  then show ?thesis by (simp add: not_digit_groups_Nil)
next
  case (Cons c r)
  then show ?thesis
    by (auto simp: parse_digits_groups digit_groups_Cons [of c] decimal_value_def
        digit_not_underscore)
qed

lemma strip_decompose:
  "s = takeWhile is_space s @ strip s @ rev (takeWhile is_space (rev (dropWhile is_space s)))"
proof -
  let ?d = "dropWhile is_space s"
  have "rev (rev ?d) = rev (dropWhile is_space (rev ?d)) @ rev (takeWhile is_space (rev ?d))"
    by (metis rev_append takeWhile_dropWhile_id)
  then have "?d = strip s @ rev (takeWhile is_space (rev ?d))"
    unfolding strip_def by simp
  moreover have "s = takeWhile is_space s @ ?d" by simp
  ultimately show ?thesis by metis
qed

lemma dropWhile_keep: "xs \<noteq> [] \<Longrightarrow> \<not> P (hd xs) \<Longrightarrow> dropWhile P xs = xs"
  by (cases xs) auto

lemma strip_core:
  assumes "core \<noteq> []" "\<not> is_space (hd core)" "\<not> is_space (last core)"
    and "\<forall>c \<in> set ws1. is_space c" "\<forall>c \<in> set ws2. is_space c"
  shows "strip (ws1 @ core @ ws2) = core"
proof -
  have "dropWhile is_space (ws1 @ core @ ws2) = dropWhile is_space (core @ ws2)"
    using assms(4) by (simp add: dropWhile_append2)
  also have "\<dots> = core @ ws2"
    using assms(1,2) by (intro dropWhile_keep) auto
  finally have a: "dropWhile is_space (ws1 @ core @ ws2) = core @ ws2" .
  have "dropWhile is_space (rev ws2 @ rev core) = dropWhile is_space (rev core)"
    by (rule dropWhile_append2) (use assms(5) in auto)
  then have "dropWhile is_space (rev (core @ ws2)) = dropWhile is_space (rev core)"
    by simp
  also have "\<dots> = rev core"
    using assms(1,3) by (intro dropWhile_keep) (auto simp: hd_rev)
  finally show ?thesis
    unfolding strip_def a by simp
qed

lemma int_of_str_literal: "int_of_str s = Some v \<longleftrightarrow> int_literal s v"
proof
  assume a: "int_of_str s = Some v"
  then obtain c cs where st: "strip s = c # cs"
    by (cases "strip s") (auto simp: int_of_str_def)
  let ?w1 = "takeWhile is_space s"
  let ?w2 = "rev (takeWhile is_space (rev (dropWhile is_space s)))"
  have dec: "s = ?w1 @ (c # cs) @ ?w2"
    using strip_decompose [of s] unfolding st .
  have w1: "set ?w1 \<subseteq> set int_whitespace"
    using is_space_whitespace by (auto dest: set_takeWhileD)
  have w2: "set ?w2 \<subseteq> set int_whitespace"
    using is_space_whitespace by (auto dest: set_takeWhileD)
  consider (minus) "c = CHR ''-''" | (plus) "c = CHR ''+''" | (none) "c \<noteq> CHR ''-''" "c \<noteq> CHR ''+''"
    by blast
  then show "int_literal s v"
  proof cases
    case minus
    with a st obtain n where n: "parse_unsigned cs = Some n" "v = - int n"
      by (auto simp: int_of_str_def)
    then have "digit_groups cs" "v = literal_value ''-'' cs"
      by (simp_all add: parse_unsigned_groups literal_value_def)
    moreover have "s = ?w1 @ ''-'' @ cs @ ?w2" using dec minus by simp
    ultimately show ?thesis
      unfolding int_literal_def using w1 w2 by blast
  next
    case plus
    with a st obtain n where n: "parse_unsigned cs = Some n" "v = int n"
      by (auto simp: int_of_str_def)
    then have "digit_groups cs" "v = literal_value ''+'' cs"
      by (simp_all add: parse_unsigned_groups literal_value_def)
    moreover have "s = ?w1 @ ''+'' @ cs @ ?w2" using dec plus by simp
    ultimately show ?thesis
      unfolding int_literal_def using w1 w2 by blast
  next
    case none
    with a st obtain n where n: "parse_unsigned (c # cs) = Some n" "v = int n"
      by (auto simp: int_of_str_def)
    from n(1) have "digit_groups (c # cs) \<and> n = decimal_value (filter (\<lambda>c. c \<noteq> CHR ''_'') (c # cs))"
      by (simp only: parse_unsigned_groups)
    with n(2) have "digit_groups (c # cs)" "v = literal_value [] (c # cs)"
      by (simp_all add: literal_value_def)
    moreover have "s = ?w1 @ [] @ (c # cs) @ ?w2" using dec by simp
    ultimately show ?thesis
      unfolding int_literal_def using w1 w2 by blast
  qed
next
  assume "int_literal s v"
  then obtain ws1 sg body ws2 where
    s: "s = ws1 @ sg @ body @ ws2" and
    w: "set ws1 \<subseteq> set int_whitespace" "set ws2 \<subseteq> set int_whitespace" and
    sg: "sg = [] \<or> sg = ''+'' \<or> sg = ''-''" and
    b: "digit_groups body" and
    v: "v = literal_value sg body"
    unfolding int_literal_def by blast
  from b obtain d ds where body: "body = d # ds" and d: "is_digit d"
    by (cases body) (auto simp: not_digit_groups_Nil digit_groups_Cons)
  have lastb: "is_digit (last body)" using b by (rule digit_groups_last)
  have ws: "\<forall>c \<in> set ws1. is_space c" "\<forall>c \<in> set ws2. is_space c"
    using w is_space_whitespace by auto
  have ne: "sg @ body \<noteq> []" using body by simp
  have hd: "\<not> is_space (hd (sg @ body))"
    using sg body d not_space_sign not_space_digit by auto
  have la: "\<not> is_space (last (sg @ body))"
    using lastb body not_space_digit by simp
  have st: "strip s = sg @ body"
    using strip_core [OF ne hd la ws] unfolding s by simp
  have pu: "parse_unsigned body = Some (decimal_value (filter (\<lambda>c. c \<noteq> CHR ''_'') body))"
    using b by (simp add: parse_unsigned_groups)
  from sg show "int_of_str s = Some v"
  proof (elim disjE)
    assume "sg = []"
    then show ?thesis
      using st pu v digit_not_sign [OF d] unfolding int_of_str_def body
      by (simp add: literal_value_def)
  next
    assume "sg = ''+''"
    then show ?thesis
      using st pu v unfolding int_of_str_def by (simp add: literal_value_def)
  next
    assume "sg = ''-''"
    then show ?thesis
      using st pu v unfolding int_of_str_def by (simp add: literal_value_def)
  qed
qed


lemma all_digits_groups: "s \<noteq> [] \<Longrightarrow> list_all is_digit s \<Longrightarrow> digit_groups s"
proof (induction s)
  case Nil
  then show ?case by simp
next
  case (Cons c r)
  then show ?case
    by (cases "r = []") (auto intro: digit_groups.intros)
qed

lemma plain_number_literal:
  assumes "plain_number a"
  shows "int_literal a (int (decimal_value a))" "CHR '':'' \<notin> set a"
proof -
  from assms have ne: "a \<noteq> []" and dg: "list_all is_digit a"
    unfolding plain_number_def by simp_all
  have "filter (\<lambda>c. c \<noteq> CHR ''_'') a = a"
    using dg by (auto simp: list_all_iff filter_id_conv dest: digit_not_underscore)
  then have "int (decimal_value a) = literal_value [] a"
    by (simp add: literal_value_def)
  moreover have "digit_groups a" using ne dg by (rule all_digits_groups)
  moreover have "a = [] @ [] @ a @ []" by simp
  ultimately show "int_literal a (int (decimal_value a))"
    unfolding int_literal_def by (metis empty_iff empty_set subsetI)
  show "CHR '':'' \<notin> set a"
    using dg by (auto simp: list_all_iff dest: digit_not_colon)
qed

lemma plain_hms_chars: "plain_hms t \<Longrightarrow> c \<in> set t \<Longrightarrow> is_digit c \<or> c = CHR '':''"
  unfolding plain_hms_def plain_number_def by (auto simp: list_all_iff)

lemma valid_hms_value:
  assumes "valid_hms t h m s"
  shows "hms_to_seconds t = h * 3600 + m * 60 + s"
proof -
  from assms obtain ph pm ps where
    t: "t = ph @ [CHR '':''] @ pm @ [CHR '':''] @ ps" and
    nc: "CHR '':'' \<notin> set ph" "CHR '':'' \<notin> set pm" "CHR '':'' \<notin> set ps" and
    iv: "int_of_str ph = Some h" "int_of_str pm = Some m" "int_of_str ps = Some s" and
    rg: "0 \<le> h" "0 \<le> m" "m < 60" "0 \<le> s" "s < 60"
    unfolding valid_hms_def int_of_str_literal by auto
  have sp: "split_on CHR '':'' t = [ph, pm, ps]"
    unfolding t using nc by (rule split_on_three)
  show ?thesis
    using hms_to_seconds_parts [OF sp iv] rg by simp
qed

lemma accepted_is_valid:
  assumes "hms_to_seconds t \<noteq> - 1"
  shows "\<exists>h m s. valid_hms t h m s"
proof -
  let ?parts = "split_on CHR '':'' t"
  from assms have len: "length ?parts = 3"
    by (auto simp: hms_to_seconds_def Let_def split: if_splits)
  then obtain a b c where
    t: "t = a @ [CHR '':''] @ b @ [CHR '':''] @ c" and
    nc: "CHR '':'' \<notin> set a" "CHR '':'' \<notin> set b" "CHR '':'' \<notin> set c"
    unfolding split_on_three_iff by blast
  have sp: "?parts = [a, b, c]"
    unfolding t using nc by (rule split_on_three)
  from assms obtain h where h: "int_of_str a = Some h"
    by (cases "int_of_str a") (auto simp: hms_to_seconds_def sp)
  from assms h obtain m where m: "int_of_str b = Some m"
    by (cases "int_of_str b") (auto simp: hms_to_seconds_def sp)
  from assms h m obtain s where s: "int_of_str c = Some s"
    by (cases "int_of_str c") (auto simp: hms_to_seconds_def sp)
  from assms have "\<not> (m \<ge> 60 \<or> s \<ge> 60 \<or> h < 0 \<or> m < 0 \<or> s < 0)"
    using hms_to_seconds_parts [OF sp h m s] by (auto split: if_splits)
  then have "valid_hms t h m s"
    unfolding valid_hms_def using t nc h m s by (auto simp: int_of_str_literal)
  then show ?thesis by blast
qed

lemma plain_hms_value:
  assumes "plain_number a" "plain_number b" "plain_number c"
    and "decimal_value b < 60" "decimal_value c < 60"
  shows "hms_to_seconds (a @ '':'' @ b @ '':'' @ c) =
    int (decimal_value a) * 3600 + int (decimal_value b) * 60 + int (decimal_value c)"
proof -
  have "valid_hms (a @ '':'' @ b @ '':'' @ c)
      (int (decimal_value a)) (int (decimal_value b)) (int (decimal_value c))"
    unfolding valid_hms_def
    using plain_number_literal [OF assms(1)] plain_number_literal [OF assms(2)]
      plain_number_literal [OF assms(3)] assms(4,5)
    by (intro exI [of _ a] exI [of _ b] exI [of _ c]) simp
  then show ?thesis by (rule valid_hms_value)
qed

lemma hms_examples:
  "hms_to_seconds ''25:61:00'' = - 1"
  "hms_to_seconds ''1:2'' = - 1"
  "hms_to_seconds ''ab:cd:ef'' = - 1"
  by code_simp+

lemma hms_separator_not_stripped: "hms_to_seconds (CHR 0x1C # ''1:02:03'') = - 1"
  by code_simp

text \<open>
  C6, as the code has it. \<open>hms_to_seconds\<close> accepts exactly the strings made of three parts
  separated by two colons, each part an integer literal as \<open>int\<close> reads it (optional
  surrounding whitespace, an optional sign, digits with single underscores between
  them), with the hours not negative and the minutes and seconds in \<open>0..59\<close>; it
  then returns \<open>h * 3600 + m * 60 + s\<close>, and \<open>-1\<close> for every other string. Every
  string of the strict pattern (three non-empty runs of digits, minutes and seconds
  below sixty) is accepted with the value of its digits, and \<open>25:61:00\<close>, \<open>1:2\<close> and
  \<open>ab:cd:ef\<close> give \<open>-1\<close>.
\<close>

theorem hms_to_seconds_accepts_exactly:
  "(hms_to_seconds t \<noteq> - 1 \<longleftrightarrow> (\<exists>h m s. valid_hms t h m s)) \<and>
   (\<forall>h m s. valid_hms t h m s \<longrightarrow> hms_to_seconds t = h * 3600 + m * 60 + s) \<and>
   (\<forall>a b c. plain_number a \<and> plain_number b \<and> plain_number c \<and>
      decimal_value b < 60 \<and> decimal_value c < 60 \<longrightarrow>
      hms_to_seconds (a @ '':'' @ b @ '':'' @ c) =
        int (decimal_value a) * 3600 + int (decimal_value b) * 60 + int (decimal_value c)) \<and>
   hms_to_seconds ''25:61:00'' = - 1 \<and> hms_to_seconds ''1:2'' = - 1 \<and>
   hms_to_seconds ''ab:cd:ef'' = - 1"
proof -
  have "hms_to_seconds t \<noteq> - 1" if "valid_hms t h m s" for h m s
  proof -
    from that have "0 \<le> h" "0 \<le> m" "0 \<le> s" unfolding valid_hms_def by auto
    then have "0 \<le> h * 3600 + m * 60 + s" by simp
    with valid_hms_value [OF that] show ?thesis by simp
  qed
  then have 1: "hms_to_seconds t \<noteq> - 1 \<longleftrightarrow> (\<exists>h m s. valid_hms t h m s)"
    using accepted_is_valid by blast
  have 2: "\<forall>h m s. valid_hms t h m s \<longrightarrow> hms_to_seconds t = h * 3600 + m * 60 + s"
    using valid_hms_value by blast
  have 3: "\<forall>a b c. plain_number a \<and> plain_number b \<and> plain_number c \<and>
      decimal_value b < 60 \<and> decimal_value c < 60 \<longrightarrow>
      hms_to_seconds (a @ '':'' @ b @ '':'' @ c) =
        int (decimal_value a) * 3600 + int (decimal_value b) * 60 + int (decimal_value c)"
    using plain_hms_value by blast
  from 1 2 3 hms_examples show ?thesis by blast
qed

theorem hms_to_seconds_accepts_exactly_witness:
  "valid_hms ''+1: 0_2:05'' 1 2 5 \<and> hms_to_seconds ''+1: 0_2:05'' = 3725 \<and>
   plain_number ''01'' \<and> plain_number ''02'' \<and> plain_number ''05'' \<and>
   decimal_value ''02'' < 60 \<and> decimal_value ''05'' < 60 \<and>
   hms_to_seconds ''01:02:05'' = 3725"
proof -
  have i: "int_literal ''+1'' 1" "int_literal '' 0_2'' 2" "int_literal ''05'' 5"
    unfolding int_of_str_literal [symmetric] by code_simp+
  have "''+1: 0_2:05'' = ''+1'' @ '':'' @ '' 0_2'' @ '':'' @ ''05''" by simp
  with i have v: "valid_hms ''+1: 0_2:05'' 1 2 5"
    unfolding valid_hms_def
    by (intro exI [of _ "''+1''"] exI [of _ "'' 0_2''"] exI [of _ "''05''"]) simp
  have p: "plain_number ''01''" "plain_number ''02''" "plain_number ''05''"
    "decimal_value ''02'' < 60" "decimal_value ''05'' < 60"
    by code_simp+
  have d: "int (decimal_value ''01'') * 3600 + int (decimal_value ''02'') * 60 +
      int (decimal_value ''05'') = 3725"
    by code_simp
  have "hms_to_seconds (''01'' @ '':'' @ ''02'' @ '':'' @ ''05'') = 3725"
    using hms_to_seconds_accepts_exactly [of "''+1: 0_2:05''"] p d by metis
  with v p hms_to_seconds_accepts_exactly [of "''+1: 0_2:05''"] show ?thesis by auto
qed

text \<open>
  C6, as stated, fails: strings that are not of the pattern \<open>H:M:S\<close> of three runs of
  digits are accepted, because \<open>int\<close> allows underscores, a sign and whitespace.
\<close>

theorem hms_to_seconds_accepts_more:
  "hms_to_seconds ''1_0:00:00'' = 36000 \<and> \<not> plain_hms ''1_0:00:00'' \<and>
   hms_to_seconds ''+1: 02:03'' = 3723 \<and> \<not> plain_hms ''+1: 02:03''"
proof -
  have a: "hms_to_seconds ''1_0:00:00'' = 36000" "hms_to_seconds ''+1: 02:03'' = 3723"
    by code_simp+
  have "\<not> (is_digit CHR ''_'' \<or> CHR ''_'' = CHR '':'')"
    by (simp add: is_digit_def)
  moreover have "CHR ''_'' \<in> set ''1_0:00:00''" by simp
  ultimately have b: "\<not> plain_hms ''1_0:00:00''"
    using plain_hms_chars by blast
  have "\<not> (is_digit CHR ''+'' \<or> CHR ''+'' = CHR '':'')"
    by (simp add: is_digit_def)
  moreover have "CHR ''+'' \<in> set ''+1: 02:03''" by simp
  ultimately have c: "\<not> plain_hms ''+1: 02:03''"
    using plain_hms_chars by blast
  from a b c show ?thesis by simp
qed

subsection \<open>The loop of the worker, one iteration at a time\<close>

lemma loop_stop: "\<not> (is_running e n \<and> cap_opened cap) \<Longrightarrow> loop e w cap c n = ([], Returned)"
  by (subst loop.simps) simp

lemma loop_read_fail: "cap_read cap = (None, cap') \<Longrightarrow> loop e w cap c n = ([], Returned)"
  by (subst loop.simps) simp

lemma loop_past_end:
  "cap_read cap = (Some frame, cap') \<Longrightarrow> video_fps w \<noteq> 0 \<Longrightarrow> \<not> within_end w (cap_get_pos cap') \<Longrightarrow>
   loop e w cap c n = ([], Returned)"
  by (subst loop.simps) (auto simp: within_end_def Let_def split: option.splits)

lemma loop_skip:
  "is_running e n \<Longrightarrow> cap_opened cap \<Longrightarrow> cap_read cap = (Some frame, cap') \<Longrightarrow>
   video_fps w \<noteq> 0 \<Longrightarrow> within_end w (cap_get_pos cap') \<Longrightarrow> skipped w (c + 1) \<Longrightarrow>
   loop e w cap c n = loop e w cap' (c + 1) (Suc n)"
  by (subst loop.simps) (auto simp: within_end_def skipped_def Let_def split: option.splits)

lemma loop_raise:
  "is_running e n \<Longrightarrow> cap_opened cap \<Longrightarrow> cap_read cap = (Some frame, cap') \<Longrightarrow>
   video_fps w \<noteq> 0 \<Longrightarrow> within_end w (cap_get_pos cap') \<Longrightarrow> \<not> skipped w (c + 1) \<Longrightarrow>
   process_frame e w frame (c + 1) (cap_get_pos cap') = Inl err \<Longrightarrow>
   loop e w cap c n = ([], Raised err)"
  by (subst loop.simps) (auto simp: within_end_def skipped_def Let_def split: option.splits)

lemma loop_emit:
  "is_running e n \<Longrightarrow> cap_opened cap \<Longrightarrow> cap_read cap = (Some frame, cap') \<Longrightarrow>
   video_fps w \<noteq> 0 \<Longrightarrow> within_end w (cap_get_pos cap') \<Longrightarrow> \<not> skipped w (c + 1) \<Longrightarrow>
   process_frame e w frame (c + 1) (cap_get_pos cap') = Inr ev \<Longrightarrow>
   loop e w cap c n = (ev # fst (loop e w cap' (c + 1) (Suc n)), snd (loop e w cap' (c + 1) (Suc n)))"
  by (subst loop.simps) (auto simp: within_end_def skipped_def Let_def split: option.splits prod.splits)

lemma loop_zero_fps:
  "is_running e n \<Longrightarrow> cap_opened cap \<Longrightarrow> cap_read cap = (Some frame, cap') \<Longrightarrow>
   video_fps w = 0 \<Longrightarrow> loop e w cap c n = ([], Raised ZeroDivisionError)"
  by (subst loop.simps) (auto simp: Let_def)

lemma process_frame_event:
  "process_frame e w frame c pos = Inr ev \<Longrightarrow>
   \<exists>img cnt. ev = FrameSignal img cnt pos (video_fps w) c"
  by (auto simp: process_frame_def Let_def split: sum.splits)

lemma loop_cases:
  obtains
    (stop) "loop e w cap c n = ([], Returned)"
  | (zero) "loop e w cap c n = ([], Raised ZeroDivisionError)"
  | (skip) frame cap' where "cap_read cap = (Some frame, cap')" "within_end w (cap_get_pos cap')"
      "loop e w cap c n = loop e w cap' (c + 1) (Suc n)"
      "is_running e n" "cap_opened cap" "video_fps w \<noteq> 0" "skipped w (c + 1)"
  | (raise) frame cap' err where "cap_read cap = (Some frame, cap')" "within_end w (cap_get_pos cap')"
      "process_frame e w frame (c + 1) (cap_get_pos cap') = Inl err"
      "loop e w cap c n = ([], Raised err)"
  | (emit) frame cap' ev where "cap_read cap = (Some frame, cap')" "within_end w (cap_get_pos cap')"
      "process_frame e w frame (c + 1) (cap_get_pos cap') = Inr ev"
      "loop e w cap c n = (ev # fst (loop e w cap' (c + 1) (Suc n)), snd (loop e w cap' (c + 1) (Suc n)))"
      "is_running e n" "cap_opened cap" "video_fps w \<noteq> 0" "\<not> skipped w (c + 1)"
proof (cases "is_running e n \<and> cap_opened cap")
  case False
  then show ?thesis using loop_stop stop by blast
next
  case ro: True
  obtain r cap' where rd: "cap_read cap = (r, cap')" by (cases "cap_read cap")
  show ?thesis
  proof (cases r)
    case None
    with rd show ?thesis using loop_read_fail stop by blast
  next
    case (Some frame)
    note rd' = rd [unfolded Some]
    show ?thesis
    proof (cases "video_fps w = 0")
      case True
      with ro rd' show ?thesis using loop_zero_fps zero by blast
    next
      case fps: False
      show ?thesis
      proof (cases "within_end w (cap_get_pos cap')")
        case False
        with rd' fps show ?thesis using loop_past_end stop by blast
      next
        case we: True
        show ?thesis
        proof (cases "skipped w (c + 1)")
          case True
          with ro rd' fps we show ?thesis using loop_skip skip by blast
        next
          case ns: False
          show ?thesis
          proof (cases "process_frame e w frame (c + 1) (cap_get_pos cap')")
            case (Inl err)
            with ro rd' fps we ns show ?thesis using loop_raise raise by blast
          next
            case (Inr ev)
            with ro rd' fps we ns show ?thesis using loop_emit emit by blast
          qed
        qed
      qed
    qed
  qed
qed

lemma cap_read_Some:
  assumes "cap_read cap = (Some frame, cap')"
  shows "cap_opened cap" "0 \<le> cap_pos cap" "cap_pos cap < int (length (cap_frames cap))"
    "frame = cap_frames cap ! nat (cap_pos cap)" "cap' = cap\<lparr>cap_pos := cap_pos cap + 1\<rparr>"
  using assms by (auto simp: cap_read_def split: if_splits)

lemma loop_induct [case_names step]:
  fixes P :: "capture \<Rightarrow> int \<Rightarrow> nat \<Rightarrow> bool"
  assumes st: "\<And>cap c i. (\<And>frame cap'. cap_read cap = (Some frame, cap') \<Longrightarrow> P cap' (c + 1) (Suc i)) \<Longrightarrow> P cap c i"
  shows "P cap c i"
proof (induction cap arbitrary: c i
    rule: measure_induct_rule [where f = "\<lambda>cap. nat (int (length (cap_frames cap)) - cap_pos cap)"])
  case (less cap c i)
  have "P cap' (c + 1) (Suc i)" if rd: "cap_read cap = (Some frame, cap')" for frame cap'
  proof -
    have "nat (int (length (cap_frames cap')) - cap_pos cap') < nat (int (length (cap_frames cap)) - cap_pos cap)"
      using cap_read_Some [OF rd] by auto
    then show ?thesis by (rule less)
  qed
  then show ?case by (rule st)
qed

lemma loop_events_within:
  assumes "end_sec w = Some bound"
  shows "list_all (event_within bound) (fst (loop e w cap c n))"
proof (induction cap c n rule: loop_induct)
  case (step cap c n)
  show ?case
  proof (cases e w cap c n rule: loop_cases)
    case stop
    then show ?thesis by simp
  next
    case zero
    then show ?thesis by simp
  next
    case (skip frame cap')
    with step show ?thesis by simp
  next
    case (raise frame cap' err)
    then show ?thesis by simp
  next
    case (emit frame cap' ev)
    from process_frame_event [OF emit(3)] obtain img cnt where
      ev: "ev = FrameSignal img cnt (cap_get_pos cap') (video_fps w) (c + 1)" by blast
    from emit(2) assms have "event_within bound ev"
      by (simp add: ev event_within_def within_end_def)
    with step [OF emit(1)] emit(4) show ?thesis by simp
  qed
qed

lemma run_events:
  "fst (run e w src) = fst (loop e w (fst (seek w (VideoCapture src))) (snd (seek w (VideoCapture src))) 0)
     @ (if snd (run e w src) = Returned then [FinishedSignal (time_end e - time_start e)] else [])"
  by (auto simp: run_def split: prod.splits outcome.splits)

subsection \<open>The end-time bound\<close>

text \<open>
  C2. In a run with a finite end time, no frame signal is emitted for a frame whose
  reconstructed time \<open>(position - 1) / rate\<close> exceeds the end time, whatever the skip
  factor: the test is made on every frame read, before the skip decision, and the loop
  is left at the first frame past the bound.
\<close>

theorem end_time_bound:
  assumes "end_sec w = Some bound"
  shows "list_all (event_within bound) (fst (run e w src)) \<and>
         (\<forall>cap frame cap' c n.
            cap_read cap = (Some frame, cap') \<and> video_fps w \<noteq> 0 \<and>
            (cap_get_pos cap' - 1) / video_fps w > bound \<longrightarrow>
            loop e w cap c n = ([], Returned))"
proof -
  have "list_all (event_within bound) (fst (run e w src))"
    unfolding run_events using loop_events_within [OF assms]
    by (simp add: event_within_def)
  moreover have "loop e w cap c n = ([], Returned)"
    if "cap_read cap = (Some frame, cap')" "video_fps w \<noteq> 0"
       "(cap_get_pos cap' - 1) / video_fps w > bound" for cap frame cap' c n
    using that assms by (intro loop_past_end) (auto simp: within_end_def)
  ultimately show ?thesis by blast
qed

theorem end_time_bound_witness:
  "end_sec w_end = Some (2 / 10) \<and>
   run ex_env w_end (Some (ex_video 6)) =
     ([FrameSignal ex_frame 0 2 10 2, FinishedSignal 1], Returned) \<and>
   list_all (event_within (2 / 10)) (fst (run ex_env w_end (Some (ex_video 6)))) \<and>
   cap_read \<lparr>cap_opened = True, cap_frames = ex_video 6, cap_pos = 3\<rparr> =
     (Some ex_frame, \<lparr>cap_opened = True, cap_frames = ex_video 6, cap_pos = 4\<rparr>) \<and>
   (cap_get_pos \<lparr>cap_opened = True, cap_frames = ex_video 6, cap_pos = 4\<rparr> - 1) / video_fps w_end > 2 / 10 \<and>
   loop ex_env w_end \<lparr>cap_opened = True, cap_frames = ex_video 6, cap_pos = 3\<rparr> 3 3 = ([], Returned)"
proof -
  have h: "end_sec w_end = Some (2 / 10)"
    by (simp add: w_end_def ex_worker_def)
  have r: "run ex_env w_end (Some (ex_video 6)) =
     ([FrameSignal ex_frame 0 2 10 2, FinishedSignal 1], Returned)"
    by code_simp
  have c: "cap_read \<lparr>cap_opened = True, cap_frames = ex_video 6, cap_pos = 3\<rparr> =
     (Some ex_frame, \<lparr>cap_opened = True, cap_frames = ex_video 6, cap_pos = 4\<rparr>)"
    by (simp add: cap_read_def ex_video_def)
  have f: "video_fps w_end \<noteq> 0"
    by (simp add: w_end_def ex_worker_def)
  have p: "(cap_get_pos \<lparr>cap_opened = True, cap_frames = ex_video 6, cap_pos = 4\<rparr> - 1) / video_fps w_end > 2 / 10"
    by (simp add: cap_get_pos_def w_end_def ex_worker_def)
  from end_time_bound [OF h, of ex_env "Some (ex_video 6)"] h r c f p show ?thesis
    by blast
qed

subsection \<open>Seeking to the start time\<close>

lemma loop_skip_many:
  assumes "cap_opened cap" "0 \<le> cap_pos cap"
    "cap_pos cap + int k \<le> int (length (cap_frames cap))"
    "video_fps w \<noteq> 0"
    "\<forall>i. n \<le> i \<and> i < n + k \<longrightarrow> is_running e i"
    "\<forall>j. 1 \<le> j \<and> j \<le> int k \<longrightarrow> within_end w (of_int (cap_pos cap + j))"
    "\<forall>j. 1 \<le> j \<and> j \<le> int k \<longrightarrow> skipped w (c + j)"
  shows "loop e w cap c n = loop e w (cap\<lparr>cap_pos := cap_pos cap + int k\<rparr>) (c + int k) (n + k)"
  using assms
proof (induction k arbitrary: cap c n)
  case 0
  then show ?case by simp
next
  case (Suc k)
  let ?cap' = "cap\<lparr>cap_pos := cap_pos cap + 1\<rparr>"
  have rd: "cap_read cap = (Some (cap_frames cap ! nat (cap_pos cap)), ?cap')"
    using Suc.prems by (simp add: cap_read_def)
  have we: "within_end w (cap_get_pos ?cap')"
    using Suc.prems(6) [rule_format, of 1] by (simp add: cap_get_pos_def)
  have sk: "skipped w (c + 1)"
    using Suc.prems(7) by simp
  have ir: "is_running e n"
    using Suc.prems(5) by simp
  have "loop e w cap c n = loop e w ?cap' (c + 1) (Suc n)"
    using Suc.prems(1,4) rd we sk ir by (intro loop_skip) auto
  also have "\<dots> = loop e w (?cap'\<lparr>cap_pos := cap_pos ?cap' + int k\<rparr>) (c + 1 + int k) (Suc n + k)"
  proof (rule Suc.IH)
    show "\<forall>j. 1 \<le> j \<and> j \<le> int k \<longrightarrow> skipped w (c + 1 + j)"
    proof (intro allI impI)
      fix j :: int
      assume "1 \<le> j \<and> j \<le> int k"
      then have "1 \<le> j + 1 \<and> j + 1 \<le> int (Suc k)" by simp
      with Suc.prems(7) have "skipped w (c + (j + 1))" by blast
      moreover have "c + (j + 1) = c + 1 + j" by simp
      ultimately show "skipped w (c + 1 + j)" by simp
    qed
    show "\<forall>j. 1 \<le> j \<and> j \<le> int k \<longrightarrow> within_end w (of_int (cap_pos ?cap' + j))"
    proof (intro allI impI)
      fix j :: int
      assume "1 \<le> j \<and> j \<le> int k"
      then have "1 \<le> j + 1 \<and> j + 1 \<le> int (Suc k)" by simp
      with Suc.prems(6) have "within_end w (of_int (cap_pos cap + (j + 1)))" by blast
      moreover have "cap_pos cap + (j + 1) = cap_pos ?cap' + j" by simp
      ultimately show "within_end w (of_int (cap_pos ?cap' + j))" by simp
    qed
    show "\<forall>i. Suc n \<le> i \<and> i < Suc n + k \<longrightarrow> is_running e i"
      using Suc.prems(5) by simp
  qed (use Suc.prems in auto)
  also have "c + 1 + int k = c + int (Suc k)" by simp
  also have "Suc n + k = n + Suc k" by simp
  also have "?cap'\<lparr>cap_pos := cap_pos ?cap' + int k\<rparr> = cap\<lparr>cap_pos := cap_pos cap + int (Suc k)\<rparr>"
    by simp
  finally show ?case .
qed

lemma loop_first_emit:
  assumes "cap_opened cap" "0 \<le> cap_pos cap"
    "cap_pos cap + int d < int (length (cap_frames cap))"
    "video_fps w \<noteq> 0"
    "\<forall>i. n \<le> i \<and> i \<le> n + d \<longrightarrow> is_running e i"
    "\<forall>j. 1 \<le> j \<and> j \<le> int d + 1 \<longrightarrow> within_end w (of_int (cap_pos cap + j))"
    "\<forall>j. 1 \<le> j \<and> j \<le> int d \<longrightarrow> skipped w (c + j)"
    "\<not> skipped w (c + int d + 1)"
    "predict e (cap_frames cap ! nat (cap_pos cap + int d)) (conf_threshold w) (target_classes w)
       = Inr detections"
  shows "\<exists>img cnt rest. fst (loop e w cap c n) =
     FrameSignal img cnt (of_int (cap_pos cap + int d + 1)) (video_fps w) (c + int d + 1) # rest"
proof -
  let ?cap = "cap\<lparr>cap_pos := cap_pos cap + int d\<rparr>"
  let ?cap' = "cap\<lparr>cap_pos := cap_pos cap + int d + 1\<rparr>"
  have "loop e w cap c n = loop e w ?cap (c + int d) (n + d)"
    using assms(1-7) by (intro loop_skip_many) auto
  moreover have rd: "cap_read ?cap = (Some (cap_frames cap ! nat (cap_pos cap + int d)), ?cap')"
    using assms(1-3) by (simp add: cap_read_def)
  have we: "within_end w (cap_get_pos ?cap')"
    using assms(6) [rule_format, of "int d + 1"] by (simp add: cap_get_pos_def add.assoc)
  have ns: "\<not> skipped w (c + int d + 1)" by (rule assms(8))
  obtain ev where pf: "process_frame e w (cap_frames cap ! nat (cap_pos cap + int d))
      (c + int d + 1) (cap_get_pos ?cap') = Inr ev"
    using assms(9) by (auto simp: process_frame_def Let_def)
  from process_frame_event [OF pf] obtain img cnt where
    ev: "ev = FrameSignal img cnt (of_int (cap_pos cap + int d + 1)) (video_fps w) (c + int d + 1)"
    by (auto simp: cap_get_pos_def)
  have ir: "is_running e (n + d)" using assms(5) by simp
  have op: "cap_opened ?cap" using assms(1) by simp
  have "fst (loop e w ?cap (c + int d) (n + d)) =
      ev # fst (loop e w ?cap' (c + int d + 1) (Suc (n + d)))"
    by (subst loop_emit [OF ir op rd assms(4) we ns pf]) simp
  ultimately show ?thesis unfolding ev by simp
qed

lemma seek_floor:
  assumes "0 < start_sec w" "0 \<le> video_fps w"
  shows "seek w (VideoCapture (Some fs)) =
     (\<lparr>cap_opened = True, cap_frames = fs, cap_pos = \<lfloor>start_sec w * video_fps w\<rfloor>\<rparr>,
      \<lfloor>start_sec w * video_fps w\<rfloor> - 1)"
proof -
  have "0 \<le> start_sec w * video_fps w" using assms by simp
  then have "py_int (start_sec w * video_fps w) = \<lfloor>start_sec w * video_fps w\<rfloor>"
    by (simp add: py_int_def)
  with assms(1) show ?thesis
    by (simp add: seek_def VideoCapture_def cap_set_pos_def Let_def)
qed

lemma py_int_frame_time: "0 \<le> k \<Longrightarrow> py_int (of_int k / 30) = k div 30"
proof -
  assume "0 \<le> k"
  then have "(0::rat) \<le> of_int k / 30" by simp
  then have "py_int (of_int k / 30) = \<lfloor>(of_int k :: rat) / of_int 30\<rfloor>"
    by (simp add: py_int_def)
  also have "\<dots> = k div 30" by (rule floor_divide_of_int_eq)
  finally show ?thesis .
qed

lemma hms_of_frame_time:
  assumes "0 \<le> k"
  shows "seconds_to_hms (of_int k / 30) = seconds_to_hms (of_int (k div 30))"
proof -
  have "0 \<le> k div 30" using assms by (simp add: pos_imp_zdiv_nonneg_iff)
  then have "py_int (of_int (k div 30)) = k div 30" by (simp add: py_int_def)
  then show ?thesis
    using py_int_frame_time [OF assms] by (simp add: seconds_to_hms_def)
qed

lemma hms_ten_iff:
  assumes "300 \<le> k"
  shows "seconds_to_hms (of_int k / 30) = ''00:00:10'' \<longleftrightarrow> k \<le> 329"
proof -
  have k0: "0 \<le> k" and d0: "0 \<le> k div 30" using assms by simp_all
  have ten: "seconds_to_hms (of_int 10) = ''00:00:10''" by code_simp
  have "seconds_to_hms (of_int (k div 30)) = ''00:00:10'' \<longleftrightarrow> k div 30 = 10"
  proof
    assume "seconds_to_hms (of_int (k div 30)) = ''00:00:10''"
    then have "seconds_to_hms (of_int (k div 30)) = seconds_to_hms (of_int 10)"
      using ten by simp
    then have "hms_to_seconds (seconds_to_hms (of_int (k div 30))) =
        hms_to_seconds (seconds_to_hms (of_int 10))" by simp
    then show "k div 30 = 10"
      using parse_formatted [OF d0] parse_formatted [of 10] by simp
  next
    assume "k div 30 = 10"
    then show "seconds_to_hms (of_int (k div 30)) = ''00:00:10''"
      using ten by simp
  qed
  moreover have "k div 30 = 10 \<longleftrightarrow> k \<le> 329" using assms by presburger
  ultimately show ?thesis
    unfolding hms_of_frame_time [OF k0] by simp
qed

lemma first_signal_after_seek:
  assumes a: "start_sec w = 10 \<and> video_fps w = 30 \<and>
    300 \<le> k \<and> \<not> skipped w k \<and> (\<forall>j. 300 \<le> j \<and> j < k \<longrightarrow> skipped w j) \<and>
    (case end_sec w of None \<Rightarrow> True | Some bound \<Rightarrow> of_int k / 30 \<le> bound) \<and>
    (\<forall>i. i \<le> nat (k - 300) \<longrightarrow> is_running e i) \<and> nat k < length fs \<and>
    predict e (fs ! nat k) (conf_threshold w) (target_classes w) = Inr detections"
  shows "\<exists>img cnt rest. fst (run e w (Some fs)) = FrameSignal img cnt (of_int k + 1) 30 k # rest"
proof -
  let ?cap = "\<lparr>cap_opened = True, cap_frames = fs, cap_pos = 300\<rparr>"
  define d where "d = nat (k - 300)"
  have kd: "k = 300 + int d" using a by (simp add: d_def)
  have sk: "seek w (VideoCapture (Some fs)) = (?cap, 299)"
    using a seek_floor [of w fs] by simp
  have we: "\<forall>j. 1 \<le> j \<and> j \<le> int d + 1 \<longrightarrow> within_end w (of_int (cap_pos ?cap + j))"
  proof (intro allI impI)
    fix j :: int
    assume j: "1 \<le> j \<and> j \<le> int d + 1"
    show "within_end w (of_int (cap_pos ?cap + j))"
    proof (cases "end_sec w")
      case None
      then show ?thesis by (simp add: within_end_def)
    next
      case (Some bound)
      with a have "of_int k / 30 \<le> bound" by simp
      moreover have "(of_int (300 + j) - 1) / 30 \<le> (of_int k :: rat) / 30"
        using j kd by simp
      ultimately show ?thesis
        using a Some by (simp add: within_end_def)
    qed
  qed
  have sp: "\<forall>j. 1 \<le> j \<and> j \<le> int d \<longrightarrow> skipped w (299 + j)"
  proof (intro allI impI)
    fix j :: int
    assume "1 \<le> j \<and> j \<le> int d"
    then have "300 \<le> 299 + j \<and> 299 + j < k" using kd by simp
    with a show "skipped w (299 + j)" by blast
  qed
  have "\<exists>img cnt rest. fst (loop e w ?cap 299 0) =
     FrameSignal img cnt (of_int (cap_pos ?cap + int d + 1)) (video_fps w) (299 + int d + 1) # rest"
  proof (rule loop_first_emit [OF _ _ _ _ _ we sp])
    show "\<forall>i. 0 \<le> i \<and> i \<le> 0 + d \<longrightarrow> is_running e i"
      using a by (simp add: d_def)
    show "\<not> skipped w (299 + int d + 1)" using a kd by simp
    show "predict e (cap_frames ?cap ! nat (cap_pos ?cap + int d)) (conf_threshold w)
        (target_classes w) = Inr detections"
      using a kd by simp
    have "k < int (length fs)" using a by arith
    then show "cap_pos ?cap + int d < int (length (cap_frames ?cap))"
      using kd by simp
  qed (use a in auto)
  then obtain img cnt rest where
    "fst (loop e w ?cap 299 0) = FrameSignal img cnt (of_int k + 1) 30 k # rest"
    using a kd by auto
  then have "fst (run e w (Some fs)) = FrameSignal img cnt (of_int k + 1) 30 k # (rest
     @ (if snd (run e w (Some fs)) = Returned then [FinishedSignal (time_end e - time_start e)] else []))"
    unfolding run_events sk by simp
  then show ?thesis by blast
qed

lemma first_not_skipped:
  assumes "frame_skip w \<le> 1 \<or> (\<exists>m. 300 \<le> m \<and> m \<le> 329 \<and> m mod frame_skip w = 0)"
  obtains k where "300 \<le> k" "k \<le> 329" "\<not> skipped w k" "\<forall>j. 300 \<le> j \<and> j < k \<longrightarrow> skipped w j"
proof -
  have "\<exists>m. 300 \<le> m \<and> m \<le> 329 \<and> \<not> skipped w m"
    using assms by (auto simp: skipped_def)
  then obtain m where m: "300 \<le> m" "m \<le> 329" "\<not> skipped w m" by blast
  define P where "P n = (\<not> skipped w (300 + int n))" for n
  have pm: "P (nat (m - 300))" using m by (simp add: P_def)
  define n where "n = (LEAST n. P n)"
  have pn: "P n" unfolding n_def using pm by (rule LeastI)
  have le: "n \<le> nat (m - 300)" unfolding n_def using pm by (rule Least_le)
  have lt: "\<not> P i" if "i < n" for i
    using that unfolding n_def by (rule not_less_Least)
  have "\<forall>j. 300 \<le> j \<and> j < 300 + int n \<longrightarrow> skipped w j"
  proof (intro allI impI)
    fix j :: int
    assume j: "300 \<le> j \<and> j < 300 + int n"
    then have "nat (j - 300) < n" by arith
    from lt [OF this] j show "skipped w j" by (simp add: P_def)
  qed
  moreover have "300 \<le> 300 + int n" "300 + int n \<le> 329" using le m by simp_all
  moreover have "\<not> skipped w (300 + int n)" using pn by (simp add: P_def)
  ultimately show ?thesis using that by blast
qed

lemma first_signal_ten:
  assumes a: "start_sec w = 10 \<and> video_fps w = 30 \<and>
    (frame_skip w \<le> 1 \<or> (\<exists>m. 300 \<le> m \<and> m \<le> 329 \<and> m mod frame_skip w = 0)) \<and>
    (case end_sec w of None \<Rightarrow> True | Some bound \<Rightarrow> 329 / 30 \<le> bound) \<and>
    (\<forall>i. i < 30 \<longrightarrow> is_running e i) \<and> 330 \<le> length fs \<and>
    (\<forall>j. 300 \<le> j \<and> j < 330 \<longrightarrow>
       (\<exists>dets. predict e (fs ! j) (conf_threshold w) (target_classes w) = Inr dets))"
  shows "\<exists>img cnt pos c rest. fst (run e w (Some fs)) = FrameSignal img cnt pos 30 c # rest \<and>
    seconds_to_hms ((pos - 1) / video_fps w) = ''00:00:10''"
proof -
  from a have "frame_skip w \<le> 1 \<or> (\<exists>m. 300 \<le> m \<and> m \<le> 329 \<and> m mod frame_skip w = 0)"
    by blast
  then obtain k where k: "300 \<le> k" "k \<le> 329" "\<not> skipped w k"
    "\<forall>j. 300 \<le> j \<and> j < k \<longrightarrow> skipped w j"
    by (rule first_not_skipped)
  have nk: "300 \<le> nat k \<and> nat k < 330" using k(1,2) by arith
  with a obtain dets where
    pr: "predict e (fs ! nat k) (conf_threshold w) (target_classes w) = Inr dets" by blast
  have en: "case end_sec w of None \<Rightarrow> True | Some bound \<Rightarrow> of_int k / 30 \<le> bound"
  proof (cases "end_sec w")
    case None
    then show ?thesis by simp
  next
    case (Some bound)
    with a have "329 / 30 \<le> bound" by simp
    moreover have "(of_int k :: rat) / 30 \<le> 329 / 30" using k(2) by simp
    ultimately show ?thesis using Some by simp
  qed
  have ir: "\<forall>i. i \<le> nat (k - 300) \<longrightarrow> is_running e i"
  proof (intro allI impI)
    fix i assume "i \<le> nat (k - 300)"
    then have "i < 30" using k by simp
    with a show "is_running e i" by blast
  qed
  have ln: "nat k < length fs" using nk a by simp
  from a k(1,3,4) en ir ln pr have
    "start_sec w = 10 \<and> video_fps w = 30 \<and>
    300 \<le> k \<and> \<not> skipped w k \<and> (\<forall>j. 300 \<le> j \<and> j < k \<longrightarrow> skipped w j) \<and>
    (case end_sec w of None \<Rightarrow> True | Some bound \<Rightarrow> of_int k / 30 \<le> bound) \<and>
    (\<forall>i. i \<le> nat (k - 300) \<longrightarrow> is_running e i) \<and> nat k < length fs \<and>
    predict e (fs ! nat k) (conf_threshold w) (target_classes w) = Inr dets"
    by blast
  from first_signal_after_seek [OF this] obtain img cnt rest where
    r: "fst (run e w (Some fs)) = FrameSignal img cnt (of_int k + 1) 30 k # rest" by blast
  have "seconds_to_hms ((of_int k + 1 - 1) / video_fps w) = ''00:00:10''"
    using a hms_ten_iff [OF k(1)] k(2) by simp
  with r show ?thesis by blast
qed

text \<open>
  C1, as the code has it. With a positive start time (and a frame rate that is not negative)
  the worker seeks the decoder to frame \<open>floor(start_sec * video_fps)\<close> and sets its
  read counter to that index minus one. With \<open>start_sec = 10\<close> and \<open>video_fps = 30\<close>
  the decoder is at frame \<open>300\<close> and the counter is \<open>299\<close>, so the first frame read
  has counter \<open>300\<close>, position \<open>301\<close> and the time stamp \<open>00:00:10\<close>, whatever the
  skip factor. The first frame signalled is the first one from there that the skip
  test lets through: the one with the least counter \<open>k \<ge> 300\<close> such that the skip
  factor is at most one or divides \<open>k\<close> (the video has the frame, the end time is not
  before it, the flag is set until then and the detector answers); its position is
  \<open>k + 1\<close>, and its time stamp is \<open>00:00:10\<close> exactly when \<open>k \<le> 329\<close>. So the time
  stamp of the first frame signalled is \<open>00:00:10\<close> whenever the skip factor is at most
  one or has a multiple in \<open>300..329\<close>.
\<close>

theorem seek_first_frame:
  "(0 < start_sec w \<and> 0 \<le> video_fps w \<longrightarrow>
      seek w (VideoCapture (Some fs)) =
        (\<lparr>cap_opened = True, cap_frames = fs, cap_pos = \<lfloor>start_sec w * video_fps w\<rfloor>\<rparr>,
         \<lfloor>start_sec w * video_fps w\<rfloor> - 1)) \<and>
   (start_sec w = 10 \<and> video_fps w = 30 \<longrightarrow>
      seek w (VideoCapture (Some fs)) =
        (\<lparr>cap_opened = True, cap_frames = fs, cap_pos = 300\<rparr>, 299) \<and>
      (300 < length fs \<longrightarrow>
         cap_read \<lparr>cap_opened = True, cap_frames = fs, cap_pos = 300\<rparr> =
           (Some (fs ! 300), \<lparr>cap_opened = True, cap_frames = fs, cap_pos = 301\<rparr>)) \<and>
      seconds_to_hms ((301 - 1) / video_fps w) = ''00:00:10'') \<and>
   (start_sec w = 10 \<and> video_fps w = 30 \<and>
    300 \<le> k \<and> \<not> skipped w k \<and> (\<forall>j. 300 \<le> j \<and> j < k \<longrightarrow> skipped w j) \<and>
    (case end_sec w of None \<Rightarrow> True | Some bound \<Rightarrow> of_int k / 30 \<le> bound) \<and>
    (\<forall>i. i \<le> nat (k - 300) \<longrightarrow> is_running e i) \<and> nat k < length fs \<and>
    predict e (fs ! nat k) (conf_threshold w) (target_classes w) = Inr detections \<longrightarrow>
      (\<exists>img cnt rest. fst (run e w (Some fs)) = FrameSignal img cnt (of_int k + 1) 30 k # rest) \<and>
      (seconds_to_hms ((of_int k + 1 - 1) / video_fps w) = ''00:00:10'' \<longleftrightarrow> k \<le> 329)) \<and>
   (start_sec w = 10 \<and> video_fps w = 30 \<and>
    (frame_skip w \<le> 1 \<or> (\<exists>m. 300 \<le> m \<and> m \<le> 329 \<and> m mod frame_skip w = 0)) \<and>
    (case end_sec w of None \<Rightarrow> True | Some bound \<Rightarrow> 329 / 30 \<le> bound) \<and>
    (\<forall>i. i < 30 \<longrightarrow> is_running e i) \<and> 330 \<le> length fs \<and>
    (\<forall>j. 300 \<le> j \<and> j < 330 \<longrightarrow>
       (\<exists>dets. predict e (fs ! j) (conf_threshold w) (target_classes w) = Inr dets)) \<longrightarrow>
      (\<exists>img cnt pos c rest. fst (run e w (Some fs)) = FrameSignal img cnt pos 30 c # rest \<and>
         seconds_to_hms ((pos - 1) / video_fps w) = ''00:00:10''))"
proof (intro conjI impI)
  assume "0 < start_sec w \<and> 0 \<le> video_fps w"
  then show "seek w (VideoCapture (Some fs)) =
        (\<lparr>cap_opened = True, cap_frames = fs, cap_pos = \<lfloor>start_sec w * video_fps w\<rfloor>\<rparr>,
         \<lfloor>start_sec w * video_fps w\<rfloor> - 1)"
    using seek_floor by blast
next
  assume "start_sec w = 10 \<and> video_fps w = 30"
  then show "seek w (VideoCapture (Some fs)) =
        (\<lparr>cap_opened = True, cap_frames = fs, cap_pos = 300\<rparr>, 299)"
    using seek_floor [of w fs] by simp
next
  assume "300 < length fs"
  then show "cap_read \<lparr>cap_opened = True, cap_frames = fs, cap_pos = 300\<rparr> =
           (Some (fs ! 300), \<lparr>cap_opened = True, cap_frames = fs, cap_pos = 301\<rparr>)"
    by (simp add: cap_read_def)
next
  assume "start_sec w = 10 \<and> video_fps w = 30"
  then show "seconds_to_hms ((301 - 1) / video_fps w) = ''00:00:10''"
    using hms_ten_iff [of 300] by simp
next
  assume a: "start_sec w = 10 \<and> video_fps w = 30 \<and>
    300 \<le> k \<and> \<not> skipped w k \<and> (\<forall>j. 300 \<le> j \<and> j < k \<longrightarrow> skipped w j) \<and>
    (case end_sec w of None \<Rightarrow> True | Some bound \<Rightarrow> of_int k / 30 \<le> bound) \<and>
    (\<forall>i. i \<le> nat (k - 300) \<longrightarrow> is_running e i) \<and> nat k < length fs \<and>
    predict e (fs ! nat k) (conf_threshold w) (target_classes w) = Inr detections"
  then show "\<exists>img cnt rest. fst (run e w (Some fs)) = FrameSignal img cnt (of_int k + 1) 30 k # rest"
    by (rule first_signal_after_seek)
  show "seconds_to_hms ((of_int k + 1 - 1) / video_fps w) = ''00:00:10'' \<longleftrightarrow> k \<le> 329"
    using a hms_ten_iff [of k] by simp
next
  assume "start_sec w = 10 \<and> video_fps w = 30 \<and>
    (frame_skip w \<le> 1 \<or> (\<exists>m. 300 \<le> m \<and> m \<le> 329 \<and> m mod frame_skip w = 0)) \<and>
    (case end_sec w of None \<Rightarrow> True | Some bound \<Rightarrow> 329 / 30 \<le> bound) \<and>
    (\<forall>i. i < 30 \<longrightarrow> is_running e i) \<and> 330 \<le> length fs \<and>
    (\<forall>j. 300 \<le> j \<and> j < 330 \<longrightarrow>
       (\<exists>dets. predict e (fs ! j) (conf_threshold w) (target_classes w) = Inr dets))"
  then show "\<exists>img cnt pos c rest. fst (run e w (Some fs)) = FrameSignal img cnt pos 30 c # rest \<and>
         seconds_to_hms ((pos - 1) / video_fps w) = ''00:00:10''"
    by (rule first_signal_ten)
qed

theorem seek_first_frame_witness:
  "0 < start_sec w_skip7 \<and> 0 \<le> video_fps w_skip7 \<and>
   start_sec w_skip7 = 10 \<and> video_fps w_skip7 = 30 \<and>
   seek w_skip7 (VideoCapture (Some (ex_video 330))) =
     (\<lparr>cap_opened = True, cap_frames = ex_video 330, cap_pos = 300\<rparr>, 299) \<and>
   300 < length (ex_video 330) \<and>
   cap_read \<lparr>cap_opened = True, cap_frames = ex_video 330, cap_pos = 300\<rparr> =
     (Some (ex_video 330 ! 300), \<lparr>cap_opened = True, cap_frames = ex_video 330, cap_pos = 301\<rparr>) \<and>
   (300::int) \<le> 301 \<and> skipped w_skip7 300 \<and> \<not> skipped w_skip7 301 \<and>
   end_sec w_skip7 = None \<and> is_running ex_env 0 \<and> is_running ex_env 1 \<and>
   nat 301 < length (ex_video 330) \<and>
   predict ex_env (ex_video 330 ! nat 301) (conf_threshold w_skip7) (target_classes w_skip7) = Inr [] \<and>
   (\<exists>img cnt rest. fst (run ex_env w_skip7 (Some (ex_video 330))) = FrameSignal img cnt 302 30 301 # rest) \<and>
   seconds_to_hms ((302 - 1) / 30) = ''00:00:10'' \<and>
   (300::int) \<le> 301 \<and> (301::int) \<le> 329 \<and> 301 mod frame_skip w_skip7 = 0 \<and>
   330 \<le> length (ex_video 330) \<and>
   (\<exists>img cnt pos c rest. fst (run ex_env w_skip7 (Some (ex_video 330))) = FrameSignal img cnt pos 30 c # rest \<and>
      seconds_to_hms ((pos - 1) / 30) = ''00:00:10'')"
proof -
  have h: "0 < start_sec w_skip7" "0 \<le> video_fps w_skip7" "start_sec w_skip7 = 10"
    "video_fps w_skip7 = 30" "end_sec w_skip7 = None" "frame_skip w_skip7 = 7"
    "\<forall>i. is_running ex_env i" "300 < length (ex_video 330)" "nat 301 < length (ex_video 330)"
    "predict ex_env (ex_video 330 ! nat 301) (conf_threshold w_skip7) (target_classes w_skip7) = Inr []"
    "330 \<le> length (ex_video 330)"
    "\<forall>j. 300 \<le> j \<and> j < 330 \<longrightarrow>
       (\<exists>dets. predict ex_env (ex_video 330 ! j) (conf_threshold w_skip7) (target_classes w_skip7) = Inr dets)"
    by (simp_all add: w_skip7_def ex_worker_def ex_env_def ex_video_def)
  have s: "skipped w_skip7 300" "\<not> skipped w_skip7 301"
    by (simp_all add: skipped_def h)
  have sj: "\<forall>j. 300 \<le> j \<and> j < 301 \<longrightarrow> skipped w_skip7 j"
  proof (intro allI impI)
    fix j :: int
    assume "300 \<le> j \<and> j < 301"
    then have "j = 300" by simp
    with s show "skipped w_skip7 j" by simp
  qed
  have m: "\<exists>m. 300 \<le> m \<and> m \<le> 329 \<and> m mod frame_skip w_skip7 = 0"
    by (rule exI [of _ 301]) (simp add: h)
  from seek_first_frame [of w_skip7 "ex_video 330" 301 ex_env "[]"] h s sj m show ?thesis
    by simp
qed

lemma skip37: "1 \<le> j \<and> j \<le> int 33 \<Longrightarrow> skipped w_skip37 (299 + j)"
proof -
  assume "1 \<le> j \<and> j \<le> int 33"
  then have "(299 + j) mod 37 \<noteq> 0" by presburger
  then show ?thesis by (simp add: skipped_def w_skip37_def ex_worker_def)
qed

text \<open>
  The claim as stated, for every run, fails: the skip test is on the read counter, which
  starts at \<open>299\<close>, so with a skip factor of \<open>37\<close> the first frame signalled is the one
  with counter \<open>333\<close>, and its time stamp is \<open>00:00:11\<close>.
\<close>

theorem first_frame_skip37:
  "start_sec w_skip37 = 10 \<and> video_fps w_skip37 = 30 \<and>
   run ex_env w_skip37 (Some (ex_video 334)) =
     ([FrameSignal ex_frame 0 334 30 333, FinishedSignal 1], Returned) \<and>
   seconds_to_hms ((334 - 1) / 30) = ''00:00:11''"
proof -
  let ?cap = "\<lambda>p. \<lparr>cap_opened = True, cap_frames = ex_video 334, cap_pos = p\<rparr>"
  have w: "start_sec w_skip37 = 10" "video_fps w_skip37 = 30" "end_sec w_skip37 = None"
    "frame_skip w_skip37 = 37"
    by (simp_all add: w_skip37_def ex_worker_def)
  have sk: "seek w_skip37 (VideoCapture (Some (ex_video 334))) = (?cap 300, 299)"
    using seek_floor [of w_skip37 "ex_video 334"] w by simp
  have "loop ex_env w_skip37 (?cap 300) 299 0 =
        loop ex_env w_skip37 ((?cap 300)\<lparr>cap_pos := cap_pos (?cap 300) + int 33\<rparr>) (299 + int 33) (0 + 33)"
    by (rule loop_skip_many) (use w skip37 in \<open>auto simp: ex_env_def ex_video_def within_end_def\<close>)
  then have l1: "loop ex_env w_skip37 (?cap 300) 299 0 = loop ex_env w_skip37 (?cap 333) 332 33"
    by simp
  have rd: "cap_read (?cap 333) = (Some ex_frame, ?cap 334)"
    by (simp add: cap_read_def ex_video_def)
  have pf: "process_frame ex_env w_skip37 ex_frame (332 + 1) (cap_get_pos (?cap 334)) =
        Inr (FrameSignal ex_frame 0 334 30 333)"
    by (simp add: process_frame_def validate_def ex_env_def w cap_get_pos_def Let_def
        w_skip37_def ex_worker_def)
  have ns: "\<not> skipped w_skip37 (332 + 1)"
    by (simp add: skipped_def w)
  have we: "within_end w_skip37 (cap_get_pos (?cap 334))"
    by (simp add: within_end_def w)
  have rf: "cap_read (?cap 334) = (None, ?cap 334)"
    by (simp add: cap_read_def ex_video_def)
  have l3: "loop ex_env w_skip37 (?cap 334) (332 + 1) (Suc 33) = ([], Returned)"
    using rf by (rule loop_read_fail)
  have ir: "is_running ex_env 33" by (simp add: ex_env_def)
  have op: "cap_opened (?cap 333)" by simp
  have fz: "video_fps w_skip37 \<noteq> 0" by (simp add: w)
  have l2: "loop ex_env w_skip37 (?cap 333) 332 33 = ([FrameSignal ex_frame 0 334 30 333], Returned)"
    unfolding loop_emit [OF ir op rd fz we ns pf] l3 by simp
  have te: "time_end ex_env - time_start ex_env = 1" by (simp add: ex_env_def)
  have "run ex_env w_skip37 (Some (ex_video 334)) =
     ([FrameSignal ex_frame 0 334 30 333, FinishedSignal 1], Returned)"
    by (simp add: run_def sk l1 l2 te)
  moreover have "seconds_to_hms ((334 - 1) / 30) = ''00:00:11''" by code_simp
  ultimately show ?thesis using w by simp
qed

subsection \<open>Exceptions of the detector\<close>

lemma loop_no_finished: "FinishedSignal t \<notin> set (fst (loop e w cap c n))"
proof (induction cap c n rule: loop_induct)
  case (step cap c n)
  show ?case
  proof (cases e w cap c n rule: loop_cases)
    case stop
    then show ?thesis by simp
  next
    case zero
    then show ?thesis by simp
  next
    case (skip frame cap')
    with step show ?thesis by simp
  next
    case (raise frame cap' err)
    then show ?thesis by simp
  next
    case (emit frame cap' ev)
    from process_frame_event [OF emit(3)] have "ev \<noteq> FinishedSignal t" by auto
    with step [OF emit(1)] emit(4) show ?thesis by simp
  qed
qed

lemma process_frame_raise:
  "predict e frame (conf_threshold w) (target_classes w) = Inl err \<Longrightarrow>
   process_frame e w frame c pos = Inl err"
  by (simp add: process_frame_def)

lemma run_raised_no_finished:
  assumes "snd (run e w src) = Raised err"
  shows "FinishedSignal t \<notin> set (fst (run e w src))"
  using assms loop_no_finished [of t e w "fst (seek w (VideoCapture src))" "snd (seek w (VideoCapture src))" 0]
  unfolding run_events by simp

lemma run_raise_example:
  "run ex_env_raise w_plain (Some [ex_frame, bad_frame, ex_frame]) =
     ([FrameSignal ex_frame 0 1 30 1], Raised PredictError)"
  by code_simp

lemma loop_positions:
  "FrameSignal img cnt pos f k \<in> set (fst (loop e w cap c n)) \<Longrightarrow>
   pos \<le> of_nat (length (cap_frames cap))"
proof (induction cap c n rule: loop_induct)
  case (step cap c n)
  show ?case
  proof (cases e w cap c n rule: loop_cases)
    case stop
    with step.prems show ?thesis by simp
  next
    case zero
    with step.prems show ?thesis by simp
  next
    case (skip frame cap')
    from cap_read_Some [OF skip(1)] have "cap_frames cap' = cap_frames cap" by simp
    with step.IH [OF skip(1)] step.prems skip(3) show ?thesis by simp
  next
    case (raise frame cap' err)
    with step.prems show ?thesis by simp
  next
    case (emit frame cap' ev)
    note rd = cap_read_Some [OF emit(1)]
    from rd have fr: "cap_frames cap' = cap_frames cap" by simp
    from step.prems emit(4) consider
      (head) "FrameSignal img cnt pos f k = ev"
      | (tail) "FrameSignal img cnt pos f k \<in> set (fst (loop e w cap' (c + 1) (Suc n)))"
      by auto
    then show ?thesis
    proof cases
      case head
      with process_frame_event [OF emit(3)] have "pos = cap_get_pos cap'" by auto
      also have "\<dots> = of_int (cap_pos cap + 1)" using rd by (simp add: cap_get_pos_def)
      also have "\<dots> \<le> of_int (int (length (cap_frames cap)))"
        using rd(3) by (simp only: of_int_le_iff)
      finally show ?thesis by simp
    next
      case tail
      with step.IH [OF emit(1)] fr show ?thesis by simp
    qed
  qed
qed

lemma loop_raise_later:
  fixes p d :: nat
  assumes "p + d < length fs" "video_fps w \<noteq> 0"
    "\<forall>j. j \<le> d \<longrightarrow> is_running e (n + j) \<and> within_end w (of_nat (p + j) + 1)"
    "\<forall>j. j < d \<longrightarrow> skipped w (c + int j + 1) \<or>
       (\<exists>dets. predict e (fs ! (p + j)) (conf_threshold w) (target_classes w) = Inr dets)"
    "\<not> skipped w (c + int d + 1)"
    "predict e (fs ! (p + d)) (conf_threshold w) (target_classes w) = Inl err"
  shows "loop e w \<lparr>cap_opened = True, cap_frames = fs, cap_pos = int p\<rparr> c n =
      (fst (loop e w \<lparr>cap_opened = True, cap_frames = take (p + d) fs, cap_pos = int p\<rparr> c n),
       Raised err) \<and>
    snd (loop e w \<lparr>cap_opened = True, cap_frames = take (p + d) fs, cap_pos = int p\<rparr> c n) = Returned"
  using assms
proof (induction d arbitrary: p c n)
  case 0
  let ?cap = "\<lparr>cap_opened = True, cap_frames = fs, cap_pos = int p\<rparr>"
  let ?cap' = "\<lparr>cap_opened = True, cap_frames = fs, cap_pos = int p + 1\<rparr>"
  let ?cut = "\<lparr>cap_opened = True, cap_frames = take (p + 0) fs, cap_pos = int p\<rparr>"
  have rd: "cap_read ?cap = (Some (fs ! p), ?cap')"
    using "0.prems"(1) by (simp add: cap_read_def)
  have ir: "is_running e n" and we: "within_end w (cap_get_pos ?cap')"
    using "0.prems"(3) [rule_format, of 0] by (simp_all add: cap_get_pos_def)
  have ns: "\<not> skipped w (c + 1)" using "0.prems"(5) by simp
  have pf: "process_frame e w (fs ! p) (c + 1) (cap_get_pos ?cap') = Inl err"
    using "0.prems"(6) by (simp add: process_frame_def)
  have a: "loop e w ?cap c n = ([], Raised err)"
    using ir rd "0.prems"(2) we ns pf by (intro loop_raise) auto
  have "cap_read ?cut = (None, ?cut)"
    using "0.prems"(1) by (simp add: cap_read_def)
  then have b: "loop e w ?cut c n = ([], Returned)" by (rule loop_read_fail)
  show ?case unfolding a b by simp
next
  case (Suc d)
  let ?m = "p + Suc d"
  let ?cap = "\<lparr>cap_opened = True, cap_frames = fs, cap_pos = int p\<rparr>"
  let ?cap' = "\<lparr>cap_opened = True, cap_frames = fs, cap_pos = int (Suc p)\<rparr>"
  let ?cut = "\<lparr>cap_opened = True, cap_frames = take ?m fs, cap_pos = int p\<rparr>"
  let ?cut' = "\<lparr>cap_opened = True, cap_frames = take ?m fs, cap_pos = int (Suc p)\<rparr>"
  have rd: "cap_read ?cap = (Some (fs ! p), ?cap')"
    using Suc.prems(1) by (simp add: cap_read_def)
  have rc: "cap_read ?cut = (Some (fs ! p), ?cut')"
    using Suc.prems(1) by (simp add: cap_read_def)
  have ir: "is_running e n" and we: "within_end w (cap_get_pos ?cap')"
    and wc: "within_end w (cap_get_pos ?cut')"
    using Suc.prems(3) [rule_format, of 0] by (simp_all add: cap_get_pos_def add.commute)
  have gp: "cap_get_pos ?cut' = cap_get_pos ?cap'" by (simp add: cap_get_pos_def)
  have ih: "loop e w ?cap' (c + 1) (Suc n) = (fst (loop e w ?cut' (c + 1) (Suc n)), Raised err) \<and>
      snd (loop e w ?cut' (c + 1) (Suc n)) = Returned"
  proof -
    have 1: "Suc p + d < length fs" using Suc.prems(1) by simp
    have 3: "\<forall>j. j \<le> d \<longrightarrow> is_running e (Suc n + j) \<and> within_end w (of_nat (Suc p + j) + 1)"
    proof (intro allI impI)
      fix j assume "j \<le> d"
      then have "Suc j \<le> Suc d" by simp
      from Suc.prems(3) [rule_format, OF this]
      show "is_running e (Suc n + j) \<and> within_end w (of_nat (Suc p + j) + 1)" by simp
    qed
    have 4: "\<forall>j. j < d \<longrightarrow> skipped w (c + 1 + int j + 1) \<or>
       (\<exists>dets. predict e (fs ! (Suc p + j)) (conf_threshold w) (target_classes w) = Inr dets)"
    proof (intro allI impI)
      fix j assume "j < d"
      then have "Suc j < Suc d" by simp
      from Suc.prems(4) [rule_format, OF this]
      show "skipped w (c + 1 + int j + 1) \<or>
       (\<exists>dets. predict e (fs ! (Suc p + j)) (conf_threshold w) (target_classes w) = Inr dets)"
        by (simp add: add.commute add.left_commute)
    qed
    have 5: "\<not> skipped w (c + 1 + int d + 1)"
      using Suc.prems(5) by (simp add: add.commute add.left_commute)
    have 6: "predict e (fs ! (Suc p + d)) (conf_threshold w) (target_classes w) = Inl err"
      using Suc.prems(6) by simp
    from Suc.IH [OF 1 Suc.prems(2) 3 4 5 6] show ?thesis by simp
  qed
  show ?case
  proof (cases "skipped w (c + 1)")
    case True
    have a: "loop e w ?cap c n = loop e w ?cap' (c + 1) (Suc n)"
      using ir rd Suc.prems(2) we True by (intro loop_skip) auto
    have b: "loop e w ?cut c n = loop e w ?cut' (c + 1) (Suc n)"
      using ir rc Suc.prems(2) wc True by (intro loop_skip) auto
    show ?thesis unfolding a b using ih by simp
  next
    case False
    with Suc.prems(4) [rule_format, of 0] obtain dets where
      "predict e (fs ! p) (conf_threshold w) (target_classes w) = Inr dets" by auto
    then obtain ev where pf: "process_frame e w (fs ! p) (c + 1) (cap_get_pos ?cap') = Inr ev"
      by (auto simp: process_frame_def Let_def)
    have op: "cap_opened ?cap" "cap_opened ?cut" by simp_all
    have a: "loop e w ?cap c n =
        (ev # fst (loop e w ?cap' (c + 1) (Suc n)), snd (loop e w ?cap' (c + 1) (Suc n)))"
      by (rule loop_emit [OF ir op(1) rd Suc.prems(2) we False pf])
    have b: "loop e w ?cut c n =
        (ev # fst (loop e w ?cut' (c + 1) (Suc n)), snd (loop e w ?cut' (c + 1) (Suc n)))"
      by (rule loop_emit [OF ir op(2) rc Suc.prems(2) wc False pf [folded gp]])
    from ih have f: "fst (loop e w ?cap' (c + 1) (Suc n)) = fst (loop e w ?cut' (c + 1) (Suc n))"
      and s: "snd (loop e w ?cap' (c + 1) (Suc n)) = Raised err"
      and t: "snd (loop e w ?cut' (c + 1) (Suc n)) = Returned"
      by (metis fst_conv, metis snd_conv, simp)
    show ?thesis unfolding a b f s t by simp
  qed
qed

lemma seek_frames:
  "seek w (VideoCapture (Some fs)) = (\<lparr>cap_opened = True, cap_frames = fs, cap_pos = q\<rparr>, c) \<Longrightarrow>
   seek w (VideoCapture (Some gs)) = (\<lparr>cap_opened = True, cap_frames = gs, cap_pos = q\<rparr>, c)"
  by (auto simp: seek_def VideoCapture_def cap_set_pos_def Let_def split: if_splits)

text \<open>
  C3, as the code has it. \<open>run\<close> has no handler around \<open>model.predict\<close>. Let the decoder
  stand at frame \<open>p\<close> and the counter at \<open>c\<close> after the seek, and let the detector
  raise for the first time on frame \<open>p + d\<close>, a frame the loop reaches and processes
  (the flag is set and the end time not passed up to there, every earlier frame is
  skipped or answered by the detector, and frame \<open>p + d\<close> is not skipped). Then the run
  is left by that exception. The signals it has emitted are exactly the frame signals
  of the run on the video cut before frame \<open>p + d\<close>: those of the earlier frames stay,
  there is none for frame \<open>p + d\<close> or a later frame (every position is at most
  \<open>p + d\<close>), and there is no completion signal.
\<close>

theorem detector_exception_propagates:
  "seek w (VideoCapture (Some fs)) =
     (\<lparr>cap_opened = True, cap_frames = fs, cap_pos = int p\<rparr>, c) \<and>
   p + d < length fs \<and> video_fps w \<noteq> 0 \<and>
   (\<forall>j. j \<le> d \<longrightarrow> is_running e j \<and> within_end w (of_nat (p + j) + 1)) \<and>
   (\<forall>j. j < d \<longrightarrow> skipped w (c + int j + 1) \<or>
      (\<exists>dets. predict e (fs ! (p + j)) (conf_threshold w) (target_classes w) = Inr dets)) \<and>
   \<not> skipped w (c + int d + 1) \<and>
   predict e (fs ! (p + d)) (conf_threshold w) (target_classes w) = Inl err \<longrightarrow>
     (\<exists>evs. run e w (Some fs) = (evs, Raised err) \<and>
        run e w (Some (take (p + d) fs)) =
          (evs @ [FinishedSignal (time_end e - time_start e)], Returned) \<and>
        (\<forall>t. FinishedSignal t \<notin> set evs) \<and>
        (\<forall>img cnt pos f k. FrameSignal img cnt pos f k \<in> set evs \<longrightarrow> pos \<le> of_nat (p + d)))"
proof
  assume a: "seek w (VideoCapture (Some fs)) =
     (\<lparr>cap_opened = True, cap_frames = fs, cap_pos = int p\<rparr>, c) \<and>
   p + d < length fs \<and> video_fps w \<noteq> 0 \<and>
   (\<forall>j. j \<le> d \<longrightarrow> is_running e j \<and> within_end w (of_nat (p + j) + 1)) \<and>
   (\<forall>j. j < d \<longrightarrow> skipped w (c + int j + 1) \<or>
      (\<exists>dets. predict e (fs ! (p + j)) (conf_threshold w) (target_classes w) = Inr dets)) \<and>
   \<not> skipped w (c + int d + 1) \<and>
   predict e (fs ! (p + d)) (conf_threshold w) (target_classes w) = Inl err"
  let ?cap = "\<lparr>cap_opened = True, cap_frames = fs, cap_pos = int p\<rparr>"
  let ?cut = "\<lparr>cap_opened = True, cap_frames = take (p + d) fs, cap_pos = int p\<rparr>"
  from a have sk: "seek w (VideoCapture (Some fs)) = (?cap, c)" by simp
  then have sc: "seek w (VideoCapture (Some (take (p + d) fs))) = (?cut, c)"
    by (rule seek_frames)
  have ir: "\<forall>j. j \<le> d \<longrightarrow> is_running e (0 + j) \<and> within_end w (of_nat (p + j) + 1)"
    using a by simp
  have "loop e w ?cap c 0 = (fst (loop e w ?cut c 0), Raised err) \<and>
      snd (loop e w ?cut c 0) = Returned"
    using a by (intro loop_raise_later ir) blast+
  then obtain evs where l: "loop e w ?cap c 0 = (evs, Raised err)"
    and lc: "loop e w ?cut c 0 = (evs, Returned)"
    by (metis prod.collapse)
  have 1: "run e w (Some fs) = (evs, Raised err)"
    by (simp add: run_def sk l)
  have 2: "run e w (Some (take (p + d) fs)) =
      (evs @ [FinishedSignal (time_end e - time_start e)], Returned)"
    by (simp add: run_def sc lc)
  have ev: "evs = fst (loop e w ?cut c 0)" by (simp add: lc)
  have 3: "\<forall>t. FinishedSignal t \<notin> set evs"
    unfolding ev using loop_no_finished by blast
  have 4: "\<forall>img cnt pos f k. FrameSignal img cnt pos f k \<in> set evs \<longrightarrow> pos \<le> of_nat (p + d)"
  proof (intro allI impI)
    fix img cnt pos f k
    assume "FrameSignal img cnt pos f k \<in> set evs"
    then have "FrameSignal img cnt pos f k \<in> set (fst (loop e w ?cut c 0))"
      by (simp add: ev)
    from loop_positions [OF this] a show "pos \<le> of_nat (p + d)" by simp
  qed
  from 1 2 3 4 show "\<exists>evs. run e w (Some fs) = (evs, Raised err) \<and>
        run e w (Some (take (p + d) fs)) =
          (evs @ [FinishedSignal (time_end e - time_start e)], Returned) \<and>
        (\<forall>t. FinishedSignal t \<notin> set evs) \<and>
        (\<forall>img cnt pos f k. FrameSignal img cnt pos f k \<in> set evs \<longrightarrow> pos \<le> of_nat (p + d))"
    by blast
qed

theorem detector_exception_propagates_witness:
  "seek w_plain (VideoCapture (Some [ex_frame, bad_frame, ex_frame])) =
     (\<lparr>cap_opened = True, cap_frames = [ex_frame, bad_frame, ex_frame], cap_pos = int 0\<rparr>, 0) \<and>
   0 + 1 < length [ex_frame, bad_frame, ex_frame] \<and> video_fps w_plain \<noteq> 0 \<and>
   is_running ex_env_raise 0 \<and> is_running ex_env_raise 1 \<and>
   within_end w_plain 1 \<and> within_end w_plain 2 \<and>
   predict ex_env_raise ([ex_frame, bad_frame, ex_frame] ! 0) (conf_threshold w_plain)
     (target_classes w_plain) = Inr [] \<and>
   \<not> skipped w_plain 2 \<and>
   predict ex_env_raise ([ex_frame, bad_frame, ex_frame] ! 1) (conf_threshold w_plain)
     (target_classes w_plain) = Inl PredictError \<and>
   run ex_env_raise w_plain (Some [ex_frame, bad_frame, ex_frame]) =
     ([FrameSignal ex_frame 0 1 30 1], Raised PredictError) \<and>
   run ex_env_raise w_plain (Some (take (0 + 1) [ex_frame, bad_frame, ex_frame])) =
     ([FrameSignal ex_frame 0 1 30 1, FinishedSignal 1], Returned)"
proof -
  let ?fs = "[ex_frame, bad_frame, ex_frame]"
  have sk: "seek w_plain (VideoCapture (Some ?fs)) =
     (\<lparr>cap_opened = True, cap_frames = ?fs, cap_pos = int 0\<rparr>, 0)"
    by (simp add: seek_def VideoCapture_def w_plain_def ex_worker_def)
  have h: "0 + 1 < length ?fs" "video_fps w_plain \<noteq> 0"
    "is_running ex_env_raise 0" "is_running ex_env_raise 1"
    "within_end w_plain 1" "within_end w_plain 2"
    "predict ex_env_raise (?fs ! 0) (conf_threshold w_plain) (target_classes w_plain) = Inr []"
    "\<not> skipped w_plain 2"
    "predict ex_env_raise (?fs ! 1) (conf_threshold w_plain) (target_classes w_plain) = Inl PredictError"
    by (simp_all add: ex_env_raise_def ex_env_def w_plain_def ex_worker_def
        within_end_def skipped_def ex_frame_def bad_frame_def)
  have ir: "\<forall>j. j \<le> 1 \<longrightarrow> is_running ex_env_raise j \<and> within_end w_plain (of_nat (0 + j) + 1)"
  proof (intro allI impI)
    fix j :: nat assume "j \<le> 1"
    then have "j = 0 \<or> j = 1" by auto
    with h show "is_running ex_env_raise j \<and> within_end w_plain (of_nat (0 + j) + 1)" by auto
  qed
  have pr: "\<forall>j. j < 1 \<longrightarrow> skipped w_plain (0 + int j + 1) \<or>
      (\<exists>dets. predict ex_env_raise (?fs ! (0 + j)) (conf_threshold w_plain) (target_classes w_plain) = Inr dets)"
    using h(7) by auto
  have ns: "\<not> skipped w_plain (0 + int 1 + 1)" using h(8) by simp
  have r1: "run ex_env_raise w_plain (Some ?fs) = ([FrameSignal ex_frame 0 1 30 1], Raised PredictError)"
    by (rule run_raise_example)
  from detector_exception_propagates [of w_plain ?fs 0 0 1 ex_env_raise PredictError] sk h(1,2) ir pr ns h(9)
  obtain evs where e: "run ex_env_raise w_plain (Some ?fs) = (evs, Raised PredictError)"
    "run ex_env_raise w_plain (Some (take (0 + 1) ?fs)) =
      (evs @ [FinishedSignal (time_end ex_env_raise - time_start ex_env_raise)], Returned)"
    by auto
  have te: "time_end ex_env_raise - time_start ex_env_raise = 1"
    by (simp add: ex_env_raise_def ex_env_def)
  from e(1) r1 have "evs = [FrameSignal ex_frame 0 1 30 1]" by simp
  with e(2) te have r2: "run ex_env_raise w_plain (Some (take (0 + 1) ?fs)) =
     ([FrameSignal ex_frame 0 1 30 1, FinishedSignal 1], Returned)" by simp
  from sk h r1 r2 show ?thesis by simp
qed

text \<open>
  The claim as stated fails: the detector raises on the second of three frames; the
  run stops there, the third frame is never read and no completion signal is emitted.
\<close>

theorem detector_exception_aborts_run:
  "predict ex_env_raise bad_frame (conf_threshold w_plain) (target_classes w_plain) = Inl PredictError \<and>
   run ex_env_raise w_plain (Some [ex_frame, bad_frame, ex_frame]) =
     ([FrameSignal ex_frame 0 1 30 1], Raised PredictError)"
  using run_raise_example by (simp add: ex_env_raise_def ex_env_def)

subsection \<open>A source that cannot be opened\<close>

lemma seek_unopened: "cap_opened (fst (seek w (VideoCapture None))) = False"
  by (simp add: seek_def VideoCapture_def cap_set_pos_def Let_def)

text \<open>
  C4, as the code has it. When the decoder cannot open the path, the loop body is never
  entered: no frame is read, no frame signal is emitted, and the run ends as every run
  does, with the completion signal. The worker has no failure state and no error
  signal.
\<close>

theorem unopened_source_completes:
  "run e w None = ([FinishedSignal (time_end e - time_start e)], Returned)"
proof -
  obtain cap c where s: "seek w (VideoCapture None) = (cap, c)"
    by (cases "seek w (VideoCapture None)")
  with seek_unopened [of w] have "\<not> cap_opened cap" by simp
  then have "loop e w cap c 0 = ([], Returned)" by (simp add: loop_stop)
  with s show ?thesis by (simp add: run_def)
qed

text \<open>
  The claim as stated fails: the outcome of a run on a source that cannot be opened is
  the normal one, its only signal the completion.
\<close>

theorem unopened_source_example:
  "run ex_env ex_worker None = ([FinishedSignal 1], Returned)"
  by code_simp

subsection \<open>The colour matcher\<close>

lemma map2_same: "map2 h (map f xs) (map g xs) = map (\<lambda>x. h (f x) (g x)) xs"
  by (induction xs) simp_all

lemma mask_or_maps:
  "mask_or (map (map f) img) (map (map g) img) = map (map (\<lambda>p. f p \<or> g p)) img"
  unfolding mask_or_def by (induction img) (simp_all add: map2_same)

lemma fold_masks:
  "fold (\<lambda>(lower, upper) total. mask_or total (in_range_mask img lower upper)) ranges (map (map f) img)
     = map (map (\<lambda>p. f p \<or> in_some_range ranges p)) img"
proof (induction ranges arbitrary: f)
  case Nil
  show ?case by (simp add: in_some_range_def)
next
  case (Cons r rs)
  obtain lower upper where r: "r = (lower, upper)" by (cases r)
  have "fold (\<lambda>(lower, upper) total. mask_or total (in_range_mask img lower upper)) (r # rs) (map (map f) img)
      = fold (\<lambda>(lower, upper) total. mask_or total (in_range_mask img lower upper)) rs
          (map (map (\<lambda>p. f p \<or> in_range p lower upper)) img)"
    by (simp add: r in_range_mask_def mask_or_maps)
  also have "\<dots> = map (map (\<lambda>p. (f p \<or> in_range p lower upper) \<or> in_some_range rs p)) img"
    by (rule Cons.IH)
  also have "\<dots> = map (map (\<lambda>p. f p \<or> in_some_range (r # rs) p)) img"
    by (simp add: in_some_range_def r)
  finally show ?case .
qed

lemma count_non_zero_map: "count_non_zero (map (map f) img) = length (filter f (concat img))"
  unfolding count_non_zero_def by (induction img) (simp_all add: filter_map o_def)

lemma concat_map_map: "concat (map (map f) img) = map f (concat img)"
  by (induction img) simp_all

lemma length_concat_uniform:
  "\<forall>r \<in> set img. length r = w \<Longrightarrow> length (concat img) = length img * w"
  by (induction img) simp_all

lemma rect_length_concat: "rect img \<Longrightarrow> length (concat img) = img_height img * img_width img"
  using length_concat_uniform [of img "img_width img"]
  by (simp add: rect_def list_all_iff img_height_def)

lemma rect_size_zero: "rect img \<Longrightarrow> img_size img = 0 \<longleftrightarrow> concat img = []"
proof -
  assume "rect img"
  then have "length (concat img) = img_height img * img_width img"
    by (rule rect_length_concat)
  then have "img_size img = 0 \<longleftrightarrow> length (concat img) = 0"
    by (simp add: img_size_def)
  then show ?thesis by simp
qed

lemma img_dims_map [simp]:
  "img_height (map (map f) img) = img_height img" "img_width (map (map f) img) = img_width img"
  by (simp_all add: img_height_def img_width_def split: list.splits)

lemma get_hsv_range_nonempty: "get_hsv_range name = Some rs \<Longrightarrow> rs \<noteq> []"
  by (auto simp: get_hsv_range_def Let_def split: if_splits)

lemma get_hsv_range_None:
  "get_hsv_range name = None \<longleftrightarrow>
     str_lower name \<notin> {''white'', ''black'', ''red'', ''blue'', ''green'', ''yellow''}"
  by (auto simp: get_hsv_range_def Let_def)

lemma is_color_match_ranges:
  assumes "rect roi" "str_lower name \<noteq> ''none''" "concat roi \<noteq> []" "get_hsv_range name = Some rs"
  shows "is_color_match cvt roi name thr \<longleftrightarrow> matching_fraction cvt rs roi > thr"
proof -
  let ?hsv = "map (map cvt) roi"
  have sz: "img_size roi \<noteq> 0" using assms(1,3) rect_size_zero by blast
  have ne: "rs \<noteq> []" using assms(4) by (rule get_hsv_range_nonempty)
  have m: "fold (\<lambda>(lower, upper) total. mask_or total (in_range_mask ?hsv lower upper)) rs
             (map (map (\<lambda>_. False)) ?hsv) = map (map (\<lambda>p. False \<or> in_some_range rs p)) ?hsv"
    by (rule fold_masks)
  have c: "count_non_zero (map (map (\<lambda>p. False \<or> in_some_range rs p)) ?hsv)
             = length (filter (\<lambda>p. in_some_range rs (cvt p)) (concat roi))"
    by (simp add: count_non_zero_map concat_map_map filter_map o_def)
  have t: "img_height ?hsv * img_width ?hsv = length (concat roi)"
    using rect_length_concat [OF assms(1)] by simp
  have "is_color_match cvt roi name thr \<longleftrightarrow>
      rat_of_nat (count_non_zero
        (fold (\<lambda>(lower, upper) total. mask_or total (in_range_mask ?hsv lower upper)) rs
           (map (map (\<lambda>_. False)) ?hsv))) / rat_of_nat (img_height ?hsv * img_width ?hsv) > thr"
    using assms(2) sz ne unfolding is_color_match_def assms(4) Let_def by simp
  then show ?thesis
    unfolding m c t matching_fraction_def .
qed

text \<open>
  C7. \<open>is_color_match\<close> is true without looking at the pixels when the colour name is
  the sentinel \<open>none\<close> (in any letter case), when the region is empty, or when the name
  is not in the range table; otherwise it is true exactly when the fraction of the
  region's pixels that lie in at least one of the colour's HSV ranges is strictly
  greater than the threshold. The default threshold is \<open>0.20\<close>.
\<close>

theorem is_color_match_spec:
  assumes "rect roi"
  shows "(is_color_match cvt roi name thr \<longleftrightarrow>
            str_lower name = ''none'' \<or> concat roi = [] \<or> get_hsv_range name = None \<or>
            (\<exists>rs. get_hsv_range name = Some rs \<and> matching_fraction cvt rs roi > thr)) \<and>
         (get_hsv_range name = None \<longleftrightarrow>
            str_lower name \<notin> {''white'', ''black'', ''red'', ''blue'', ''green'', ''yellow''}) \<and>
         default_match_threshold = 20 / 100"
proof -
  have "is_color_match cvt roi name thr \<longleftrightarrow>
            str_lower name = ''none'' \<or> concat roi = [] \<or> get_hsv_range name = None \<or>
            (\<exists>rs. get_hsv_range name = Some rs \<and> matching_fraction cvt rs roi > thr)"
  proof (cases "str_lower name = ''none'' \<or> concat roi = []")
    case True
    then show ?thesis
      using rect_size_zero [OF assms] by (auto simp: is_color_match_def)
  next
    case False
    show ?thesis
    proof (cases "get_hsv_range name")
      case None
      then show ?thesis by (simp add: is_color_match_def)
    next
      case (Some rs)
      from False have "str_lower name \<noteq> ''none''" "concat roi \<noteq> []" by blast+
      note m = is_color_match_ranges [OF assms this Some, of cvt thr]
      have "(\<exists>rs'. get_hsv_range name = Some rs' \<and> thr < matching_fraction cvt rs' roi)
              \<longleftrightarrow> thr < matching_fraction cvt rs roi"
        using Some by simp
      with m False Some show ?thesis by auto
    qed
  qed
  then show ?thesis
    using get_hsv_range_None by (simp add: default_match_threshold_def)
qed

theorem is_color_match_spec_witness:
  "rect red_roi \<and>
   get_hsv_range ''Red'' = Some [((0, 50, 50), (10, 255, 255)), ((170, 50, 50), (180, 255, 255))] \<and>
   matching_fraction (\<lambda>p. p) [((0, 50, 50), (10, 255, 255)), ((170, 50, 50), (180, 255, 255))] red_roi = 3 / 4 \<and>
   is_color_match (\<lambda>p. p) red_roi ''Red'' default_match_threshold"
proof -
  have r: "rect red_roi" by code_simp
  have g: "get_hsv_range ''Red'' = Some [((0, 50, 50), (10, 255, 255)), ((170, 50, 50), (180, 255, 255))]"
    by code_simp
  have f: "matching_fraction (\<lambda>p. p) [((0, 50, 50), (10, 255, 255)), ((170, 50, 50), (180, 255, 255))] red_roi = 3 / 4"
    by code_simp
  have d: "default_match_threshold < 3 / 4" by (simp add: default_match_threshold_def)
  from is_color_match_spec [OF r, of "\<lambda>p. p" "''Red''" default_match_threshold] g f d
  show ?thesis using r by auto
qed

subsection \<open>Clamping and cropping a bounding box\<close>

text \<open>
  What the clamp guarantees, and why the slice cannot fail: \<open>x1, y1\<close> end up at least
  \<open>0\<close>, \<open>x2, y2\<close> at most the width and the height, and a slice only ever selects
  elements of the list it slices.
\<close>

lemma clamp_box_bounds:
  assumes "clamp_box frame b = (x1, y1, x2, y2)"
  shows "0 \<le> x1" "0 \<le> y1" "x2 \<le> int (img_width frame)" "y2 \<le> int (img_height frame)"
  using assms by (auto simp: clamp_box_def Let_def split: prod.splits)

lemma py_slice_subset: "set (py_slice lo hi xs) \<subseteq> set xs"
  unfolding py_slice_def Let_def
  by (meson set_drop_subset set_take_subset subset_trans)

lemma py_slice_length: "length (py_slice lo hi xs) \<le> length xs"
  by (simp add: py_slice_def Let_def)

lemma crop_rows_in_frame:
  assumes "r' \<in> set (crop frame (x1, y1, x2, y2))"
  shows "\<exists>r \<in> set frame. r' = py_slice x1 x2 r"
  using assms py_slice_subset [of y1 y2 frame] by (auto simp: crop_def)

lemma crop_in_bounds:
  "img_height (crop frame box) \<le> img_height frame \<and>
   (\<forall>r' \<in> set (crop frame box). \<exists>r \<in> set frame. set r' \<subseteq> set r \<and> length r' \<le> length r)"
proof -
  obtain x1 y1 x2 y2 where box: "box = (x1, y1, x2, y2)" by (cases box)
  have "img_height (crop frame box) \<le> img_height frame"
    by (simp add: box crop_def img_height_def py_slice_length)
  moreover have "\<exists>r \<in> set frame. set r' \<subseteq> set r \<and> length r' \<le> length r"
    if "r' \<in> set (crop frame box)" for r'
  proof -
    from that obtain r where r: "r \<in> set frame" "r' = py_slice x1 x2 r"
      using crop_rows_in_frame [of r' frame x1 y1 x2 y2] unfolding box by blast
    have "set r' \<subseteq> set r" "length r' \<le> length r"
      unfolding r(2) by (rule py_slice_subset, rule py_slice_length)
    with r(1) show ?thesis by blast
  qed
  ultimately show ?thesis by blast
qed

text \<open>
  C8 at a box that lies wholly outside the frame. The clamp raises \<open>x1\<close> to \<open>0\<close> but
  leaves the negative \<open>x2\<close> as it is, so the box is not within the frame bounds, which
  the comment above the clamp asks for; the slice then counts \<open>x2\<close> from the right edge
  and the region is three columns of the frame that the box does not cover, instead of
  the empty region.
\<close>

theorem clamp_box_off_frame:
  "img_width grid_frame = 8 \<and> img_height grid_frame = 4 \<and>
   clamp_box grid_frame left_box = (0, 1, - 5, 3) \<and>
   crop grid_frame (clamp_box grid_frame left_box) =
     [[(0, 1, 0), (1, 1, 0), (2, 1, 0)], [(0, 2, 0), (1, 2, 0), (2, 2, 0)]]"
  by code_simp

subsection \<open>The evidence log and its counter\<close>


lemma add_evidence_log:
  assumes "add_evidence_to_gallery st frame pos fps count fs = Inr st'"
  shows "evidence_log st' = evidence_log st @
           [\<lparr>frame_num = py_int (pos - 1),
             timestamp = seconds_to_hms (if pos > 0 then (pos - 1) / fps else 0),
             detection_count = count, frame_rgb = frame, filters_used = fs\<rparr>]"
    and "total_evidence_frames st' = total_evidence_frames st + 1"
    and "gallery_frame_counter st' = gallery_frame_counter st + 1"
  using assms by (auto simp: add_evidence_to_gallery_def Let_def split: if_splits)







subsection \<open>The frame number of an evidence entry\<close>

lemma int_of_str_str_int: "0 \<le> i \<Longrightarrow> int_of_str (str_int i) = Some i"
proof -
  assume i: "0 \<le> i"
  have "int_of_str (str_nat (nat i)) =
      Some (int (foldl (\<lambda>a c. 10 * a + digit_val c) 0 (str_nat (nat i))))"
    by (rule int_of_str_digits) (auto simp: str_nat_nonempty dest: str_nat_digits)
  with i show ?thesis by (simp add: str_int_def foldl_str_nat)
qed

lemma loop_event_index:
  assumes "FrameSignal img cnt pos fps c \<in> set (fst (loop e w cap c0 n))"
  shows "\<exists>k. cap_pos cap \<le> int k \<and> k < length (cap_frames cap) \<and> pos = of_nat k + 1 \<and>
     c = c0 + (int k - cap_pos cap) + 1 \<and> fps = video_fps w \<and>
     process_frame e w (cap_frames cap ! k) c pos = Inr (FrameSignal img cnt pos fps c)"
  using assms
proof (induction cap c0 n rule: loop_induct)
  case (step cap c0 n)
  have later: ?case
    if rd: "cap_read cap = (Some frame, cap')"
      and m: "FrameSignal img cnt pos fps c \<in> set (fst (loop e w cap' (c0 + 1) (Suc n)))"
    for frame cap'
  proof -
    note r = cap_read_Some [OF rd]
    from step.IH [OF rd m] obtain k where
      k: "cap_pos cap' \<le> int k" "k < length (cap_frames cap')" "pos = of_nat k + 1"
        "c = c0 + 1 + (int k - cap_pos cap') + 1" "fps = video_fps w"
        "process_frame e w (cap_frames cap' ! k) c pos = Inr (FrameSignal img cnt pos fps c)"
      by blast
    have "cap_pos cap \<le> int k" using k(1) r by simp
    moreover have "k < length (cap_frames cap)" using k(2) r by simp
    moreover have "c = c0 + (int k - cap_pos cap) + 1" using k(4) r by simp
    moreover have "process_frame e w (cap_frames cap ! k) c pos = Inr (FrameSignal img cnt pos fps c)"
      using k(6) r by simp
    ultimately show ?thesis using k(3,5) by blast
  qed
  show ?case
  proof (cases e w cap c0 n rule: loop_cases)
    case stop
    with step.prems show ?thesis by simp
  next
    case zero
    with step.prems show ?thesis by simp
  next
    case (skip frame cap')
    with step.prems later show ?thesis by simp
  next
    case (raise frame cap' err)
    with step.prems show ?thesis by simp
  next
    case (emit frame cap' ev)
    from step.prems emit(4) consider
      (head) "ev = FrameSignal img cnt pos fps c"
      | (tail) "FrameSignal img cnt pos fps c \<in> set (fst (loop e w cap' (c0 + 1) (Suc n)))"
      by auto
    then show ?thesis
    proof cases
      case head
      note r = cap_read_Some [OF emit(1)]
      let ?k = "nat (cap_pos cap)"
      from process_frame_event [OF emit(3)] head have
        e: "pos = cap_get_pos cap'" "fps = video_fps w" "c = c0 + 1" by auto
      have p: "pos = of_nat ?k + 1"
        using r by (simp add: e cap_get_pos_def)
      have "process_frame e w (cap_frames cap ! ?k) c pos = Inr (FrameSignal img cnt pos fps c)"
        using emit(3) head r e by simp
      moreover have "cap_pos cap \<le> int ?k" "?k < length (cap_frames cap)"
        "c = c0 + (int ?k - cap_pos cap) + 1"
        using r e by simp_all
      ultimately show ?thesis using p e(2) by blast
    next
      case tail
      with emit(1) later show ?thesis by blast
    qed
  qed
qed

lemma run_event_index:
  assumes "FrameSignal img cnt pos fps c \<in> set (fst (run e w (Some fs)))"
  shows "\<exists>k. k < length fs \<and> pos = of_nat k + 1 \<and> fps = video_fps w \<and>
     c = (if 0 < start_sec w then int k else int k + 1) \<and>
     process_frame e w (fs ! k) c pos = Inr (FrameSignal img cnt pos fps c)"
proof -
  obtain cap c0 where sk: "seek w (VideoCapture (Some fs)) = (cap, c0)"
    by (cases "seek w (VideoCapture (Some fs))")
  have fr: "cap_frames cap = fs"
    and cc: "c0 = (if 0 < start_sec w then cap_pos cap - 1 else cap_pos cap)"
    using sk by (auto simp: seek_def VideoCapture_def cap_set_pos_def Let_def split: if_splits)
  from assms have "FrameSignal img cnt pos fps c \<in> set (fst (loop e w cap c0 0))"
    unfolding run_events sk by (auto split: if_splits)
  from loop_event_index [OF this] obtain k where
    k: "cap_pos cap \<le> int k" "k < length (cap_frames cap)" "pos = of_nat k + 1"
      "c = c0 + (int k - cap_pos cap) + 1" "fps = video_fps w"
      "process_frame e w (cap_frames cap ! k) c pos = Inr (FrameSignal img cnt pos fps c)"
    by blast
  have "c = (if 0 < start_sec w then int k else int k + 1)"
    using k(4) cc by simp
  with k fr show ?thesis by auto
qed

lemma py_int_of_int: "py_int (of_int k) = k"
  by (simp add: py_int_def)

lemma py_int_minus_one:
  assumes "pos \<in> \<int>"
  shows "py_int (pos - 1) = py_int pos - 1"
proof -
  from assms obtain k where k: "pos = of_int k" by (auto elim: Ints_cases)
  have "py_int (of_int k - 1) = py_int (of_int (k - 1))" by simp
  then show ?thesis unfolding k py_int_of_int by simp
qed

lemma hms_zero: "seconds_to_hms 0 = ''00:00:00''"
  by code_simp

lemma signal_entries:
  assumes ev: "ev \<in> set (fst (run e w (Some fs)))"
    and st: "\<forall>entry \<in> set (evidence_log st). \<exists>k<length fs. frame_num entry = int k \<and>
        timestamp entry = seconds_to_hms (of_nat k / video_fps w) \<and>
        img_filename entry =
          replace_colons (seconds_to_hms (of_nat k / video_fps w)) @ ''_F'' @ str_int (int k) @ ''.png''"
  shows "\<forall>entry \<in> set (evidence_log (apply_operation st (WorkerSignal settings ev))).
      \<exists>k<length fs. frame_num entry = int k \<and>
        timestamp entry = seconds_to_hms (of_nat k / video_fps w) \<and>
        img_filename entry =
          replace_colons (seconds_to_hms (of_nat k / video_fps w)) @ ''_F'' @ str_int (int k) @ ''.png''"
proof (cases ev)
  case (FinishedSignal t)
  with st show ?thesis by simp
next
  case (FrameSignal img cnt pos fps c)
  show ?thesis
  proof (cases "update_frame st settings img cnt pos fps c")
    case (Inl err)
    with st FrameSignal show ?thesis by simp
  next
    case (Inr st')
    then have ap: "apply_operation st (WorkerSignal settings ev) = st'"
      using FrameSignal by simp
    show ?thesis
    proof (cases "0 < cnt")
      case False
      with Inr have "st' = st" by (simp add: update_frame_def)
      with st ap show ?thesis by simp
    next
      case True
      with Inr have ad: "add_evidence_to_gallery st (bgr_to_rgb img) pos fps cnt settings = Inr st'"
        by (simp add: update_frame_def)
      note l = add_evidence_log(1) [OF ad]
      from run_event_index [of img cnt pos fps c e w fs] ev FrameSignal obtain k where
        k: "k < length fs" "pos = of_nat k + 1" "fps = video_fps w" by blast
      let ?entry = "last (evidence_log st')"
      have fn: "frame_num ?entry = int k"
        using py_int_of_int [of "int k"] by (simp add: l k(2))
      have ts: "timestamp ?entry = seconds_to_hms (of_nat k / video_fps w)"
        by (simp add: l k(2,3))
      have im: "img_filename ?entry =
          replace_colons (seconds_to_hms (of_nat k / video_fps w)) @ ''_F'' @ str_int (int k) @ ''.png''"
        unfolding img_filename_def ts fn by simp
      have "set (evidence_log st') = set (evidence_log st) \<union> {?entry}"
        by (simp add: l)
      with st k(1) fn ts im show ?thesis unfolding ap by blast
    qed
  qed
qed

lemma session_entries:
  assumes "set evs \<subseteq> set (fst (run e w (Some fs)))"
    and "\<forall>entry \<in> set (evidence_log st). \<exists>k<length fs. frame_num entry = int k \<and>
        timestamp entry = seconds_to_hms (of_nat k / video_fps w) \<and>
        img_filename entry =
          replace_colons (seconds_to_hms (of_nat k / video_fps w)) @ ''_F'' @ str_int (int k) @ ''.png''"
  shows "\<forall>entry \<in> set (evidence_log (foldl apply_operation st (map (WorkerSignal settings) evs))).
      \<exists>k<length fs. frame_num entry = int k \<and>
        timestamp entry = seconds_to_hms (of_nat k / video_fps w) \<and>
        img_filename entry =
          replace_colons (seconds_to_hms (of_nat k / video_fps w)) @ ''_F'' @ str_int (int k) @ ''.png''"
  using assms
proof (induction evs arbitrary: st)
  case Nil
  then show ?case by simp
next
  case (Cons ev evs)
  from Cons.prems(1) have ev: "ev \<in> set (fst (run e w (Some fs)))"
    and evs: "set evs \<subseteq> set (fst (run e w (Some fs)))" by simp_all
  from Cons.IH [OF evs signal_entries [OF ev Cons.prems(2)]]
  show ?case by simp
qed

lemma run_session_entries:
  "\<forall>entry \<in> set (evidence_log (foldl apply_operation init_session
        (map (WorkerSignal settings) (fst (run e w (Some fs)))))).
      \<exists>k<length fs. frame_num entry = int k \<and>
        timestamp entry = seconds_to_hms (of_nat k / video_fps w) \<and>
        img_filename entry =
          replace_colons (seconds_to_hms (of_nat k / video_fps w)) @ ''_F'' @ str_int (int k) @ ''.png''"
  by (rule session_entries [where e = e]) (simp_all add: init_session_def)

text \<open>
  C10, as the code has it. The frame number recorded in an evidence entry is
  \<open>int(position - 1)\<close>, which for a decoder position (a whole number) is
  \<open>int(position) - 1\<close>, and the time stamp is that of zero seconds when the position
  is not positive. For an entry logged from a frame signal of a run, the position is
  \<open>k + 1\<close> for the index \<open>k\<close> of the frame the signal was computed from, the frame
  number is that index \<open>k\<close>, and it is the number in the name of the exported image,
  \<open>..._F<k>.png\<close>, written in decimal; so it is for every entry of the log of a
  session that has received the signals of a run. The frame number is taken from the position
  and never from the read counter of the same signal: in a run from the beginning the
  counter is the frame number plus one, in a run that seeks to a start time the counter
  equals the frame number.
\<close>

theorem evidence_frame_number:
  "(add_evidence_to_gallery st frame pos fps count settings = Inr st' \<longrightarrow>
      evidence_log st' \<noteq> [] \<and>
      frame_num (last (evidence_log st')) = py_int (pos - 1) \<and>
      (pos \<in> \<int> \<longrightarrow> frame_num (last (evidence_log st')) = py_int pos - 1) \<and>
      img_filename (last (evidence_log st')) =
        replace_colons (timestamp (last (evidence_log st'))) @ ''_F'' @ str_int (py_int (pos - 1)) @ ''.png'' \<and>
      (\<not> 0 < pos \<longrightarrow> timestamp (last (evidence_log st')) = ''00:00:00'')) \<and>
   (FrameSignal img cnt pos fps c \<in> set (fst (run e w (Some fs))) \<and> 0 < cnt \<and>
    update_frame st settings img cnt pos fps c = Inr st' \<longrightarrow>
      (\<exists>k. k < length fs \<and> pos = of_nat k + 1 \<and>
         process_frame e w (fs ! k) c pos = Inr (FrameSignal img cnt pos fps c) \<and>
         frame_num (last (evidence_log st')) = int k \<and>
         frame_num (last (evidence_log st')) = py_int pos - 1 \<and>
         timestamp (last (evidence_log st')) = seconds_to_hms (of_nat k / video_fps w) \<and>
         img_filename (last (evidence_log st')) =
           replace_colons (seconds_to_hms (of_nat k / video_fps w)) @ ''_F'' @ str_int (int k) @ ''.png'' \<and>
         int_of_str (str_int (int k)) = Some (int k) \<and>
         (if 0 < start_sec w then c = frame_num (last (evidence_log st'))
          else c = frame_num (last (evidence_log st')) + 1))) \<and>
   (\<forall>entry \<in> set (evidence_log (foldl apply_operation init_session
        (map (WorkerSignal settings) (fst (run e w (Some fs)))))).
      \<exists>k<length fs. frame_num entry = int k \<and>
        timestamp entry = seconds_to_hms (of_nat k / video_fps w) \<and>
        img_filename entry =
          replace_colons (seconds_to_hms (of_nat k / video_fps w)) @ ''_F'' @ str_int (int k) @ ''.png'') \<and>
   update_frame st settings img cnt pos fps c = update_frame st settings img cnt pos fps c'"
proof (intro conjI impI)
  assume a: "add_evidence_to_gallery st frame pos fps count settings = Inr st'"
  note l = add_evidence_log(1) [OF a]
  show "evidence_log st' \<noteq> []" by (simp add: l)
  show n: "frame_num (last (evidence_log st')) = py_int (pos - 1)" by (simp add: l)
  show "img_filename (last (evidence_log st')) =
        replace_colons (timestamp (last (evidence_log st'))) @ ''_F'' @ str_int (py_int (pos - 1)) @ ''.png''"
    by (simp add: l img_filename_def)
  show "frame_num (last (evidence_log st')) = py_int pos - 1" if "pos \<in> \<int>"
    using n py_int_minus_one [OF that] by simp
  show "timestamp (last (evidence_log st')) = ''00:00:00''" if "\<not> 0 < pos"
    using that by (simp add: l hms_zero)
next
  assume a: "FrameSignal img cnt pos fps c \<in> set (fst (run e w (Some fs))) \<and> 0 < cnt \<and>
    update_frame st settings img cnt pos fps c = Inr st'"
  from run_event_index [of img cnt pos fps c e w fs] a obtain k where
    k: "k < length fs" "pos = of_nat k + 1" "fps = video_fps w"
      "c = (if 0 < start_sec w then int k else int k + 1)"
      "process_frame e w (fs ! k) c pos = Inr (FrameSignal img cnt pos fps c)"
    by blast
  from a have ad: "add_evidence_to_gallery st (bgr_to_rgb img) pos fps cnt settings = Inr st'"
    by (auto simp: update_frame_def split: if_splits)
  note l = add_evidence_log(1) [OF ad]
  have pp: "0 < pos" using k(2) by simp
  have fn: "frame_num (last (evidence_log st')) = int k"
    using py_int_of_int [of "int k"] by (simp add: l k(2))
  have f2: "frame_num (last (evidence_log st')) = py_int pos - 1"
    using py_int_of_int [of "int k + 1"] by (simp add: fn k(2))
  have ts: "timestamp (last (evidence_log st')) = seconds_to_hms (of_nat k / video_fps w)"
    using pp by (simp add: l k(2,3))
  have im: "img_filename (last (evidence_log st')) =
      replace_colons (seconds_to_hms (of_nat k / video_fps w)) @ ''_F'' @ str_int (int k) @ ''.png''"
    unfolding img_filename_def ts fn by simp
  have rd: "int_of_str (str_int (int k)) = Some (int k)"
    by (rule int_of_str_str_int) simp
  have cf: "if 0 < start_sec w then c = frame_num (last (evidence_log st'))
      else c = frame_num (last (evidence_log st')) + 1"
    using k(4) fn by simp
  from k(1,2,5) fn f2 ts im rd cf
  show "\<exists>k. k < length fs \<and> pos = of_nat k + 1 \<and>
         process_frame e w (fs ! k) c pos = Inr (FrameSignal img cnt pos fps c) \<and>
         frame_num (last (evidence_log st')) = int k \<and>
         frame_num (last (evidence_log st')) = py_int pos - 1 \<and>
         timestamp (last (evidence_log st')) = seconds_to_hms (of_nat k / video_fps w) \<and>
         img_filename (last (evidence_log st')) =
           replace_colons (seconds_to_hms (of_nat k / video_fps w)) @ ''_F'' @ str_int (int k) @ ''.png'' \<and>
         int_of_str (str_int (int k)) = Some (int k) \<and>
         (if 0 < start_sec w then c = frame_num (last (evidence_log st'))
          else c = frame_num (last (evidence_log st')) + 1)"
    by blast
next
  show "\<forall>entry \<in> set (evidence_log (foldl apply_operation init_session
        (map (WorkerSignal settings) (fst (run e w (Some fs)))))).
      \<exists>k<length fs. frame_num entry = int k \<and>
        timestamp entry = seconds_to_hms (of_nat k / video_fps w) \<and>
        img_filename entry =
          replace_colons (seconds_to_hms (of_nat k / video_fps w)) @ ''_F'' @ str_int (int k) @ ''.png''"
    by (rule run_session_entries)
next
  show "update_frame st settings img cnt pos fps c = update_frame st settings img cnt pos fps c'"
    by (simp add: update_frame_def)
qed

lemma seek_frame_run:
  "run ex_env_detect ex_worker (Some (ex_video 301)) =
     ([FrameSignal ex_frame 1 301 30 300, FinishedSignal 1], Returned)"
  by code_simp

lemma seek_frame_logged:
  "update_frame init_session [] ex_frame 1 301 30 300 = Inr seek_entry_session"
  by code_simp

lemma seek_frame_rows:
  "report_rows (evidence_log
     (foldl apply_operation init_session
        (map (WorkerSignal []) (fst (run ex_env_detect ex_worker (Some (ex_video 301))))))) =
   [(''00_00_10_F300.png'', 300, ''00:00:10'', 1, [])]"
  by code_simp

lemma first_frame_run:
  "run ex_env_detect w_plain (Some (ex_video 1)) =
     ([FrameSignal ex_frame 1 1 30 1, FinishedSignal 1], Returned)"
  by code_simp

lemma first_frame_logged:
  "update_frame init_session [] ex_frame 1 1 30 1 = Inr first_entry_session"
  by code_simp

lemma seek_session:
  "foldl apply_operation init_session
     (map (WorkerSignal []) (fst (run ex_env_detect ex_worker (Some (ex_video 301))))) =
   seek_entry_session"
  by code_simp

theorem evidence_frame_number_witness:
  "FrameSignal ex_frame 1 301 30 300 \<in> set (fst (run ex_env_detect ex_worker (Some (ex_video 301)))) \<and>
   update_frame init_session [] ex_frame 1 301 30 300 = Inr seek_entry_session \<and>
   add_evidence_to_gallery init_session (bgr_to_rgb ex_frame) 301 30 1 [] = Inr seek_entry_session \<and>
   (301 :: rat) \<in> \<int> \<and> 0 < start_sec ex_worker \<and>
   frame_num (last (evidence_log seek_entry_session)) = 300 \<and>
   img_filename (last (evidence_log seek_entry_session)) = ''00_00_10_F300.png'' \<and>
   str_int 300 = ''300'' \<and>
   foldl apply_operation init_session
     (map (WorkerSignal []) (fst (run ex_env_detect ex_worker (Some (ex_video 301))))) =
     seek_entry_session \<and>
   FrameSignal ex_frame 1 1 30 1 \<in> set (fst (run ex_env_detect w_plain (Some (ex_video 1)))) \<and>
   update_frame init_session [] ex_frame 1 1 30 1 = Inr first_entry_session \<and>
   \<not> 0 < start_sec w_plain \<and>
   frame_num (last (evidence_log first_entry_session)) = 0 \<and>
   img_filename (last (evidence_log first_entry_session)) = ''00_00_00_F0.png''"
proof -
  have m: "FrameSignal ex_frame 1 301 30 300 \<in> set (fst (run ex_env_detect ex_worker (Some (ex_video 301))))"
    by (simp add: seek_frame_run)
  have ad: "add_evidence_to_gallery init_session (bgr_to_rgb ex_frame) 301 30 1 [] = Inr seek_entry_session"
    using seek_frame_logged by (simp add: update_frame_def)
  have s: "0 < start_sec ex_worker" by (simp add: ex_worker_def)
  have h: "FrameSignal ex_frame 1 301 30 300 \<in> set (fst (run ex_env_detect ex_worker (Some (ex_video 301)))) \<and>
      0 < (1 :: nat) \<and> update_frame init_session [] ex_frame 1 301 30 300 = Inr seek_entry_session"
    using m seek_frame_logged zero_less_one by blast
  from evidence_frame_number [of init_session "bgr_to_rgb ex_frame" 301 30 1 "[]" seek_entry_session
      ex_frame 1 300 ex_env_detect ex_worker "ex_video 301", THEN conjunct2, THEN conjunct1,
      rule_format, OF h]
  obtain k where k: "(301 :: rat) = of_nat k + 1"
    "frame_num (last (evidence_log seek_entry_session)) = int k"
    by blast
  from k(1) have "(of_nat k :: rat) = of_nat 300" by simp
  then have "k = 300" using of_nat_eq_iff by blast
  with k(2) have n1: "frame_num (last (evidence_log seek_entry_session)) = 300"
    by simp
  have f1: "img_filename (last (evidence_log seek_entry_session)) = ''00_00_10_F300.png''"
    by code_simp
  have st: "str_int 300 = ''300''" by code_simp
  have m0: "FrameSignal ex_frame 1 1 30 1 \<in> set (fst (run ex_env_detect w_plain (Some (ex_video 1))))"
    unfolding first_frame_run by simp
  have s0: "\<not> 0 < start_sec w_plain" by (simp add: w_plain_def ex_worker_def)
  have ad0: "add_evidence_to_gallery init_session (bgr_to_rgb ex_frame) 1 30 1 [] = Inr first_entry_session"
    using first_frame_logged by (simp add: update_frame_def)
  have h0: "FrameSignal ex_frame 1 1 30 1 \<in> set (fst (run ex_env_detect w_plain (Some (ex_video 1)))) \<and>
      0 < (1 :: nat) \<and> update_frame init_session [] ex_frame 1 1 30 1 = Inr first_entry_session"
    using m0 first_frame_logged zero_less_one by blast
  from evidence_frame_number [of init_session "bgr_to_rgb ex_frame" 1 30 1 "[]" first_entry_session
      ex_frame 1 1 ex_env_detect w_plain "ex_video 1", THEN conjunct2, THEN conjunct1,
      rule_format, OF h0]
  obtain j where j: "(1 :: rat) = of_nat j + 1"
    "frame_num (last (evidence_log first_entry_session)) = int j"
    by blast
  from j have n0: "frame_num (last (evidence_log first_entry_session)) = 0" by simp
  have f0: "img_filename (last (evidence_log first_entry_session)) = ''00_00_00_F0.png''"
    by code_simp
  have z: "(301 :: rat) \<in> \<int>" by simp
  from m seek_frame_logged ad z s n1 f1 st seek_session m0 first_frame_logged s0 n0 f0
  show ?thesis by blast
qed

text \<open>
  C10, as stated, fails where it says that the frame number is not the read counter of
  the same signal: in a run that starts at ten seconds the first signal has the counter
  \<open>300\<close> and the entry logged from it the frame number \<open>300\<close>.
\<close>

theorem frame_number_equals_counter:
  "run ex_env_detect ex_worker (Some (ex_video 301)) =
     ([FrameSignal ex_frame 1 301 30 300, FinishedSignal 1], Returned) \<and>
   update_frame init_session [] ex_frame 1 301 30 300 = Inr seek_entry_session \<and>
   frame_num (last (evidence_log seek_entry_session)) = 300 \<and>
   report_rows (evidence_log
     (foldl apply_operation init_session
        (map (WorkerSignal []) (fst (run ex_env_detect ex_worker (Some (ex_video 301))))))) =
   [(''00_00_10_F300.png'', 300, ''00:00:10'', 1, [])]"
proof -
  have "frame_num (last (evidence_log seek_entry_session)) = 300"
    by (simp add: seek_entry_session_def)
  with seek_frame_run seek_frame_logged seek_frame_rows show ?thesis by simp
qed

end
